theory Spec2Isabelle
  imports Complex_Main "HOL-Library.Word"
begin

section \<open>JavaScript string primitives\<close>

text \<open>
  A JavaScript string is a sequence of UTF-16 code units. It is modelled as a \<open>string\<close>;
  every \<open>char\<close> stands for one code unit below 256. The white space and line terminator
  classes are the ones of ECMAScript, cut down to that range.
\<close>

definition isLineTerminator :: "char \<Rightarrow> bool" where
  "isLineTerminator c \<longleftrightarrow> c = CHR 0x0A \<or> c = CHR 0x0D"

definition isWhiteSpace :: "char \<Rightarrow> bool" where
  "isWhiteSpace c \<longleftrightarrow>
     c = CHR 0x09 \<or> c = CHR 0x0A \<or> c = CHR 0x0B \<or> c = CHR 0x0C \<or> c = CHR 0x0D \<or>
     c = CHR 0x20 \<or> c = CHR 0xA0"

text \<open>\<^verbatim>\<open>s.trim()\<close>\<close>

definition trim :: "string \<Rightarrow> string" where
  "trim s = rev (dropWhile isWhiteSpace (rev (dropWhile isWhiteSpace s)))"

text \<open>\<^verbatim>\<open>s.startsWith(p)\<close>\<close>

definition startsWith :: "string \<Rightarrow> string \<Rightarrow> bool" where
  "startsWith s p \<longleftrightarrow> take (length p) s = p"

text \<open>\<^verbatim>\<open>s.includes(sub)\<close>\<close>

fun js_includes :: "string \<Rightarrow> string \<Rightarrow> bool" where
  "js_includes [] sub = (sub = [])"
| "js_includes (c # cs) sub = (startsWith (c # cs) sub \<or> js_includes cs sub)"

text \<open>
  \<^verbatim>\<open>s.split(sep)\<close> for a string separator: the pieces between the occurrences of
  \<open>sep\<close>, found from left to right without overlap. The empty string splits into one
  empty piece; an empty separator splits into the single code units.
\<close>

fun js_split :: "string \<Rightarrow> string \<Rightarrow> string list" where
  "js_split sep [] = (if sep = [] then [] else [[]])"
| "js_split sep (c # cs) =
     (if sep = [] then [c] # js_split sep cs
      else if startsWith (c # cs) sep then [] # js_split sep (drop (length sep - 1) cs)
      else (case js_split sep cs of [] \<Rightarrow> [[c]] | p # ps \<Rightarrow> (c # p) # ps))"

text \<open>The decimal digits of a number, as a template literal prints an index.\<close>

definition digit :: "nat \<Rightarrow> char" where
  "digit d = ''0123456789'' ! (d mod 10)"

function showNat :: "nat \<Rightarrow> string" where
  "showNat n = (if n < 10 then [digit n] else showNat (n div 10) @ [digit (n mod 10)])"
  by pat_completeness auto
termination
  by (relation "measure id") auto

declare showNat.simps [simp del]

section \<open>The regular expressions of the inline tokenizer\<close>

text \<open>
  Every regular expression of the source is translated by hand into the function that
  a backtracking matcher computes for it.

  \<open>lazyUntil d s\<close> is the tail \<^verbatim>\<open>(.*?)d\<close> of a pattern, matched at the start of \<open>s\<close>:
  the shortest run of characters other than line terminators that is followed by the
  literal \<open>d\<close>. It returns the captured run and the text after \<open>d\<close>.
\<close>

fun lazyUntil :: "string \<Rightarrow> string \<Rightarrow> (string \<times> string) option" where
  "lazyUntil d [] = (if d = [] then Some ([], []) else None)"
| "lazyUntil d (c # cs) =
     (if startsWith (c # cs) d then Some ([], drop (length d) (c # cs))
      else if isLineTerminator c then None
      else map_option (\<lambda>(x, r). (c # x, r)) (lazyUntil d cs))"

text \<open>
  \<^verbatim>\<open>/\$\$(.+?)\$\$/\<close> and \<^verbatim>\<open>/\$(.+?)\$/\<close> matched at the start of \<open>s\<close>, with \<open>d\<close> the
  delimiter: \<open>d\<close>, then at least one character, as few as possible, then \<open>d\<close> again.
\<close>

definition matchMath :: "string \<Rightarrow> string \<Rightarrow> (string \<times> string) option" where
  "matchMath d s =
     (if startsWith s d then
        (case drop (length d) s of
           [] \<Rightarrow> None
         | c # cs \<Rightarrow>
             if isLineTerminator c then None
             else map_option (\<lambda>(x, r). (c # x, r)) (lazyUntil d cs))
      else None)"

text \<open>The entries of \<^verbatim>\<open>mathPlaceholders\<close>.\<close>

record mathPlaceholder =
  placeholder :: string
  content :: string
  isDisplay :: bool

lemma lazyUntil_length:
  "lazyUntil d s = Some (x, r) \<Longrightarrow> length r \<le> length s"
  by (induction s arbitrary: x) (auto split: if_splits)

lemma matchMath_length:
  "matchMath d s = Some (x, r) \<Longrightarrow> d \<noteq> [] \<Longrightarrow> length r < length s"
proof -
  assume m: "matchMath d s = Some (x, r)" and d: "d \<noteq> []"
  from m obtain c cs y where s: "drop (length d) s = c # cs"
    and l: "lazyUntil d cs = Some (y, r)"
    unfolding matchMath_def by (auto split: if_splits list.splits)
  have "length (drop (length d) s) = Suc (length cs)"
    using s by simp
  then have "length cs < length s"
    by simp
  with lazyUntil_length [OF l] show ?thesis
    by simp
qed

text \<open>
  \<^verbatim>\<open>processedText.replace(regex, (match, content) => ...)\<close> with the global flag: the
  text is searched from left to right, every match is replaced by its placeholder
  \<^verbatim>\<open>__MATH_<tag>_<index>__\<close> and recorded with its trimmed content, and the search goes on
  after the match. The function returns the new text, the placeholders recorded, and
  the next \<^verbatim>\<open>placeholderIndex\<close>.
\<close>

function replaceMath ::
  "string \<Rightarrow> string \<Rightarrow> bool \<Rightarrow> string \<Rightarrow> nat \<Rightarrow> string \<times> mathPlaceholder list \<times> nat" where
  "replaceMath d tag disp [] idx = ([], [], idx)"
| "replaceMath d tag disp (c # cs) idx =
     (case (if d = [] then None else matchMath d (c # cs)) of
        Some (x, rest) \<Rightarrow>
          (let ph = ''__MATH_'' @ tag @ ''_'' @ showNat idx @ ''__'';
               (t, phs, idx') = replaceMath d tag disp rest (idx + 1)
           in (ph @ t, \<lparr>placeholder = ph, content = trim x, isDisplay = disp\<rparr> # phs, idx'))
      | None \<Rightarrow>
          (let (t, phs, idx') = replaceMath d tag disp cs idx
           in (c # t, phs, idx')))"
  by pat_completeness auto
termination
  by (relation "measure (\<lambda>(d, tag, disp, s, idx). length s)")
     (auto split: if_splits dest: matchMath_length)

text \<open>
  \<^verbatim>\<open>/(\*\*\*?|__?|`)(.*?)\1/\<close>. The first group, at the start of \<open>s\<close>, in the order in
  which the matcher tries its alternatives: two stars and a greedy optional third,
  an underscore and a greedy optional second, a backtick. A single star is no marker.
\<close>

definition styleMarkers :: "string \<Rightarrow> string list" where
  "styleMarkers s =
     (if startsWith s ''***'' then [''***'', ''**'']
      else if startsWith s ''**'' then [''**'']
      else if startsWith s ''__'' then [''__'', ''_'']
      else if startsWith s ''_'' then [''_'']
      else if startsWith s ''`'' then [''`'']
      else [])"

text \<open>
  The whole pattern at the start of \<open>s\<close>: the first marker candidate for which the lazy
  group followed by the same marker matches. Returns the marker, the captured text, and
  the text after the match.
\<close>

fun firstMatch :: "string list \<Rightarrow> string \<Rightarrow> (string \<times> string \<times> string) option" where
  "firstMatch [] s = None"
| "firstMatch (m # ms) s =
     (case lazyUntil m (drop (length m) s) of
        Some (x, rest) \<Rightarrow> Some (m, x, rest)
      | None \<Rightarrow> firstMatch ms s)"

definition matchStyle :: "string \<Rightarrow> (string \<times> string \<times> string) option" where
  "matchStyle s = firstMatch (styleMarkers s) s"

text \<open>
  \<^verbatim>\<open>combinedRegex.exec(processedText)\<close> from \<^verbatim>\<open>lastIndex\<close>, where \<open>s\<close> is the text from
  \<^verbatim>\<open>lastIndex\<close> on: the leftmost position with a match. Returns the text before the
  match, the marker, the captured text, and the text after the match.
\<close>

fun execStyle :: "string \<Rightarrow> (string \<times> string \<times> string \<times> string) option" where
  "execStyle [] = None"
| "execStyle (c # cs) =
     (case matchStyle (c # cs) of
        Some (m, x, rest) \<Rightarrow> Some ([], m, x, rest)
      | None \<Rightarrow> map_option (\<lambda>(pre, m, x, rest). (c # pre, m, x, rest)) (execStyle cs))"

section \<open>Inline runs\<close>

text \<open>
  The options object of a \<^verbatim>\<open>TextRun\<close> of the document library: an option that a call
  does not give is \<open>None\<close> or \<open>False\<close>. \<open>runShading\<close> is the colour of a solid shading.
  JavaScript numbers are modelled as rationals.
\<close>

record textRun =
  runText :: string
  runFont :: "string option"
  runSize :: "rat option"
  runColor :: "string option"
  runBold :: bool
  runItalics :: bool
  runShading :: "string option"

type_synonym bytes = "8 word list"

text \<open>
  The children of a paragraph: a \<^verbatim>\<open>TextRun\<close>, a \<^verbatim>\<open>Math\<close> object holding one
  \<^verbatim>\<open>MathRun\<close>, or an \<^verbatim>\<open>ImageRun\<close> with its data, its transformation (width and height)
  and its alternative text.
\<close>

datatype inline =
  TextRun textRun
| DocxMath string
| ImageRun bytes int int string

definition styledRun :: "string \<Rightarrow> string \<Rightarrow> rat \<Rightarrow> string \<Rightarrow> bool \<Rightarrow> bool \<Rightarrow> inline" where
  "styledRun t f sz col b i =
     TextRun \<lparr>runText = t, runFont = Some f, runSize = Some sz, runColor = Some col,
              runBold = b, runItalics = i, runShading = None\<rparr>"

definition codeRun :: "string \<Rightarrow> rat \<Rightarrow> inline" where
  "codeRun t sz =
     TextRun \<lparr>runText = t, runFont = Some ''JetBrains Mono'', runSize = Some sz,
              runColor = Some ''E11D48'', runBold = False, runItalics = False,
              runShading = Some ''F1F5F9''\<rparr>"

section \<open>parseInlineStyles\<close>

text \<open>
  The \<^verbatim>\<open>exec\<close> loop that cuts the text into segments: the text before a match is a
  segment without style (when it is not empty), the captured text of a match is a
  segment with the marker as its style, and what is left after the last match is a
  segment without style (when it is not empty).
\<close>

record segment =
  segText :: string
  segStyle :: "string option"

lemma firstMatch_length:
  "firstMatch ms s = Some (m, x, r) \<Longrightarrow> length r \<le> length s"
  by (induction ms) (auto split: option.splits dest!: lazyUntil_length)

lemma firstMatch_marker:
  "firstMatch ms s = Some (m, x, r) \<Longrightarrow> m \<in> set ms \<and> lazyUntil m (drop (length m) s) = Some (x, r)"
  by (induction ms) (auto split: option.splits)

lemma styleMarkers_nonempty:
  "m \<in> set (styleMarkers s) \<Longrightarrow> m \<noteq> [] \<and> s \<noteq> []"
  by (auto simp: styleMarkers_def startsWith_def split: if_splits)

lemma matchStyle_length:
  assumes "matchStyle s = Some (m, x, r)"
  shows "length r < length s"
proof -
  from assms have m: "m \<in> set (styleMarkers s)"
    and l: "lazyUntil m (drop (length m) s) = Some (x, r)"
    unfolding matchStyle_def by (auto dest: firstMatch_marker)
  from m have "m \<noteq> []" "s \<noteq> []"
    by (auto dest: styleMarkers_nonempty)
  then have "length (drop (length m) s) < length s"
    by (cases m; cases s) auto
  with lazyUntil_length [OF l] show ?thesis
    by simp
qed

lemma execStyle_length:
  "execStyle s = Some (pre, m, x, r) \<Longrightarrow> length r < length s"
proof (induction s arbitrary: pre)
  case Nil
  then show ?case by simp
next
  case (Cons c cs)
  show ?case
  proof (cases "matchStyle (c # cs)")
    case None
    with Cons.prems obtain pre' where "execStyle cs = Some (pre', m, x, r)"
      by auto
    from Cons.IH [OF this] show ?thesis
      by simp
  next
    case (Some a)
    with Cons.prems have "matchStyle (c # cs) = Some (m, x, r)"
      by (cases a) auto
    then show ?thesis
      by (rule matchStyle_length)
  qed
qed

function segmentsOf :: "string \<Rightarrow> segment list" where
  "segmentsOf s =
     (case execStyle s of
        None \<Rightarrow> (if s \<noteq> [] then [\<lparr>segText = s, segStyle = None\<rparr>] else [])
      | Some (pre, m, x, rest) \<Rightarrow>
          (if pre \<noteq> [] then [\<lparr>segText = pre, segStyle = None\<rparr>] else [])
          @ \<lparr>segText = x, segStyle = Some m\<rparr> # segmentsOf rest)"
  by pat_completeness auto
termination
  by (relation "measure length") (auto dest: execStyle_length)

declare segmentsOf.simps [simp del]

text \<open>
  The body of the loop over the segments. A segment whose text includes a placeholder
  (the first one of \<^verbatim>\<open>mathPlaceholders\<close> that it includes) is split at that
  placeholder: the first part when it is not empty, the math object, and the second
  part when there is one and it is not empty. Any other segment is one run in the
  style of its marker.
\<close>

definition segmentRuns ::
  "mathPlaceholder list \<Rightarrow> string \<Rightarrow> rat \<Rightarrow> string \<Rightarrow> segment \<Rightarrow> inline list" where
  "segmentRuns mathPlaceholders fnt fontSize col seg =
     (case find (\<lambda>m. js_includes (segText seg) (placeholder m)) mathPlaceholders of
        Some m \<Rightarrow>
          (case js_split (placeholder m) (segText seg) of
             [] \<Rightarrow> [DocxMath (content m)]
           | p0 # ps \<Rightarrow>
               (if p0 \<noteq> [] then [styledRun p0 fnt (fontSize * 2) col False False] else [])
               @ DocxMath (content m)
               # (case ps of
                    [] \<Rightarrow> []
                  | p1 # _ \<Rightarrow>
                      if p1 \<noteq> [] then [styledRun p1 fnt (fontSize * 2) col False False]
                      else []))
      | None \<Rightarrow>
          (if segStyle seg = Some ''***'' then
             [styledRun (segText seg) fnt (fontSize * 2) col True True]
           else if segStyle seg = Some ''**'' \<or> segStyle seg = Some ''__'' then
             [styledRun (segText seg) fnt (fontSize * 2) col True False]
           else if segStyle seg = Some ''*'' \<or> segStyle seg = Some ''_'' then
             [styledRun (segText seg) fnt (fontSize * 2) col False True]
           else if segStyle seg = Some ''`'' then
             [codeRun (segText seg) ((fontSize - 1) * 2)]
           else
             [styledRun (segText seg) fnt (fontSize * 2) col False False]))"

definition parseInlineStyles :: "string \<Rightarrow> string \<Rightarrow> rat \<Rightarrow> string \<Rightarrow> inline list" where
  "parseInlineStyles txt fnt fontSize col =
     (let (t1, phs1, idx1) = replaceMath ''$$'' ''DISPLAY'' True txt 0;
          (t2, phs2, idx2) = replaceMath ''$'' ''INLINE'' False t1 idx1
      in concat (map (segmentRuns (phs1 @ phs2) fnt fontSize col) (segmentsOf t2)))"

section \<open>The older variant of parseInlineStyles\<close>

text \<open>
  The pattern \<^verbatim>\<open>/(\*\*\*?|__?|`|\$)(.*?)\1/\<close> of the older variant: the markers of the
  newer pattern, and the dollar sign as the last alternative.
\<close>

definition styleMarkersOld :: "string \<Rightarrow> string list" where
  "styleMarkersOld s =
     (if styleMarkers s \<noteq> [] then styleMarkers s
      else if startsWith s ''$'' then [''$'']
      else [])"

definition matchStyleOld :: "string \<Rightarrow> (string \<times> string \<times> string) option" where
  "matchStyleOld s = firstMatch (styleMarkersOld s) s"

fun execStyleOld :: "string \<Rightarrow> (string \<times> string \<times> string \<times> string) option" where
  "execStyleOld [] = None"
| "execStyleOld (c # cs) =
     (case matchStyleOld (c # cs) of
        Some (m, x, rest) \<Rightarrow> Some ([], m, x, rest)
      | None \<Rightarrow> map_option (\<lambda>(pre, m, x, rest). (c # pre, m, x, rest)) (execStyleOld cs))"

text \<open>The runs of the older variant have a font and a size and no colour.\<close>

definition oldRun :: "string \<Rightarrow> string \<Rightarrow> rat \<Rightarrow> bool \<Rightarrow> bool \<Rightarrow> inline" where
  "oldRun t f sz b i =
     TextRun \<lparr>runText = t, runFont = Some f, runSize = Some sz, runColor = None,
              runBold = b, runItalics = i, runShading = None\<rparr>"

text \<open>The run pushed for a match, by its marker.\<close>

definition markerRunOld :: "string \<Rightarrow> string \<Rightarrow> string \<Rightarrow> rat \<Rightarrow> inline list" where
  "markerRunOld marker x f fsz =
     (if marker = ''***'' then [oldRun x f fsz True True]
      else if marker = ''**'' \<or> marker = ''__'' then [oldRun x f fsz True False]
      else if marker = ''*'' \<or> marker = ''_'' then [oldRun x f fsz False True]
      else if marker = ''`'' then [codeRun x (fsz - 2)]
      else if marker = ''$'' then [oldRun x ''Cambria Math'' fsz False True]
      else [])"

lemma styleMarkersOld_nonempty:
  "m \<in> set (styleMarkersOld s) \<Longrightarrow> m \<noteq> [] \<and> s \<noteq> []"
  by (auto simp: styleMarkersOld_def startsWith_def dest: styleMarkers_nonempty split: if_splits)

lemma matchStyleOld_length:
  assumes "matchStyleOld s = Some (m, x, r)"
  shows "length r < length s"
proof -
  from assms have m: "m \<in> set (styleMarkersOld s)"
    and l: "lazyUntil m (drop (length m) s) = Some (x, r)"
    unfolding matchStyleOld_def by (auto dest: firstMatch_marker)
  from m have "m \<noteq> []" "s \<noteq> []"
    by (auto dest: styleMarkersOld_nonempty)
  then have "length (drop (length m) s) < length s"
    by (cases m; cases s) auto
  with lazyUntil_length [OF l] show ?thesis
    by simp
qed

lemma execStyleOld_length:
  "execStyleOld s = Some (pre, m, x, r) \<Longrightarrow> length r < length s"
proof (induction s arbitrary: pre)
  case Nil
  then show ?case by simp
next
  case (Cons c cs)
  show ?case
  proof (cases "matchStyleOld (c # cs)")
    case None
    with Cons.prems obtain pre' where "execStyleOld cs = Some (pre', m, x, r)"
      by auto
    from Cons.IH [OF this] show ?thesis
      by simp
  next
    case (Some a)
    with Cons.prems have "matchStyleOld (c # cs) = Some (m, x, r)"
      by (cases a) auto
    then show ?thesis
      by (rule matchStyleOld_length)
  qed
qed

text \<open>
  The \<^verbatim>\<open>exec\<close> loop of the older variant on the text from \<^verbatim>\<open>lastIndex\<close> on: it pushes
  the runs directly, math between dollar signs as an italic run in a math font.
\<close>

function parseInlineStylesOld :: "string \<Rightarrow> string \<Rightarrow> rat \<Rightarrow> inline list" where
  "parseInlineStylesOld s f fsz =
     (case execStyleOld s of
        None \<Rightarrow> (if s \<noteq> [] then [oldRun s f fsz False False] else [])
      | Some (pre, marker, x, rest) \<Rightarrow>
          (if pre \<noteq> [] then [oldRun pre f fsz False False] else [])
          @ markerRunOld marker x f fsz
          @ parseInlineStylesOld rest f fsz)"
  by pat_completeness auto
termination
  by (relation "measure (\<lambda>(s, f, fsz). length s)") (auto dest: execStyleOld_length)

declare parseInlineStylesOld.simps [simp del]

section \<open>Double precision arithmetic\<close>

text \<open>
  The scaling of an image divides and multiplies JavaScript numbers, which are IEEE 754
  doubles: the exact result of an operation is rounded to the nearest number with a
  53 bit significand, ties to the even significand. Overflow and subnormal numbers
  are not modelled: image dimensions are far from both.

  \<open>bitLength n\<close> is the number of binary digits of a positive \<open>n\<close>, and \<open>binade x\<close> the exponent
  \<open>e\<close> with \<open>2 ^ e \<le> x < 2 ^ (e + 1)\<close> of a positive rational.
\<close>

function bitLength :: "int \<Rightarrow> nat" where
  "bitLength n = (if n \<le> 0 then 0 else Suc (bitLength (n div 2)))"
  by pat_completeness auto
termination
  by (relation "measure nat") auto

declare bitLength.simps [simp del]

definition binade :: "rat \<Rightarrow> int" where
  "binade x =
     (let (p, q) = quotient_of x;
          d = int (bitLength p) - int (bitLength q)
      in if 2 powi d \<le> x then d else d - 1)"

definition roundHalfEven :: "rat \<Rightarrow> int" where
  "roundHalfEven y =
     (let n = \<lfloor>y\<rfloor>; f = y - of_int n
      in if f < 1 / 2 then n
         else if 1 / 2 < f then n + 1
         else if even n then n else n + 1)"

definition roundDouble :: "rat \<Rightarrow> rat" where
  "roundDouble x =
     (if x = 0 then 0
      else (let u = 2 powi (binade \<bar>x\<bar> - 52)
            in sgn x * of_int (roundHalfEven (\<bar>x\<bar> / u)) * u))"

definition fdiv :: "rat \<Rightarrow> rat \<Rightarrow> rat" where
  "fdiv a b = roundDouble (a / b)"

definition fmul :: "rat \<Rightarrow> rat \<Rightarrow> rat" where
  "fmul a b = roundDouble (a * b)"

section \<open>Styles\<close>

text \<open>
  \<^verbatim>\<open>WordTemplate\<close> and \<^verbatim>\<open>DocumentStyle\<close> come from the module \<^verbatim>\<open>../types\<close>; they are
  written here with the members and fields that the converter reads. The number of a
  style is the double it is stored as: the literal \<^verbatim>\<open>1.2\<close> is the double nearest to it.
\<close>

datatype wordTemplate = STANDARD | ACADEMIC | NOTE | CUSTOM

record documentStyle =
  fontFace :: string
  fontSize :: rat
  lineSpacing :: rat
  headingColor :: string
  textColor :: string
  alignment :: string
  paragraphSpacing :: rat

definition standardStyle :: documentStyle where
  "standardStyle =
     \<lparr>fontFace = ''SimSun'', fontSize = 12, lineSpacing = roundDouble (12 / 10),
      headingColor = ''000000'', textColor = ''000000'', alignment = ''justify'',
      paragraphSpacing = 200\<rparr>"

definition academicStyle :: documentStyle where
  "academicStyle =
     \<lparr>fontFace = ''Times New Roman'', fontSize = 105 / 10, lineSpacing = 15 / 10,
      headingColor = ''000000'', textColor = ''000000'', alignment = ''justify'',
      paragraphSpacing = 100\<rparr>"

definition noteStyle :: documentStyle where
  "noteStyle =
     \<lparr>fontFace = ''Microsoft YaHei'', fontSize = 11, lineSpacing = 15 / 10,
      headingColor = ''2563EB'', textColor = ''374151'', alignment = ''left'',
      paragraphSpacing = 300\<rparr>"

definition DEFAULT_STYLES :: "wordTemplate \<Rightarrow> documentStyle option" where
  "DEFAULT_STYLES t =
     (case t of
        STANDARD \<Rightarrow> Some standardStyle
      | ACADEMIC \<Rightarrow> Some academicStyle
      | NOTE \<Rightarrow> Some noteStyle
      | CUSTOM \<Rightarrow> None)"

text \<open>
  The style of a run of the converter: the custom style for the custom template when
  one is given, else the template's default, else the standard one.
\<close>

definition effectiveStyle :: "wordTemplate \<Rightarrow> documentStyle option \<Rightarrow> documentStyle" where
  "effectiveStyle template customStyle =
     (case (if template = CUSTOM then customStyle else None) of
        Some cs \<Rightarrow> cs
      | None \<Rightarrow>
          (case DEFAULT_STYLES template of
             Some st \<Rightarrow> st
           | None \<Rightarrow> standardStyle))"

section \<open>Blocks of the document\<close>

datatype headingLevel = HEADING_1 | HEADING_2 | HEADING_3

datatype alignmentType = LEFT | CENTER | RIGHT | JUSTIFIED

record spacing =
  spLine :: "rat option"
  spBefore :: "rat option"
  spAfter :: "rat option"

record paragraphOptions =
  pChildren :: "inline list"
  pHeading :: "headingLevel option"
  pAlignment :: "alignmentType option"
  pSpacing :: "spacing option"

text \<open>
  A table cell: its paragraphs, the fill of its shading, whether it is vertically
  centred, its borders (size and colour of top, bottom, left, right) and its margin.
  The width of a table is the same constant in every table and left out.
\<close>

record tableCell =
  cellChildren :: "paragraphOptions list"
  cellShading :: "string option"
  cellVerticalCenter :: bool
  cellBorders :: "(nat \<times> string) list"
  cellMargins :: nat

text \<open>The elements pushed to \<^verbatim>\<open>sections\<close>: a paragraph, or a table as its rows of cells.\<close>

datatype block =
  ParagraphBlock paragraphOptions
| TableBlock "tableCell list list"

section \<open>Images\<close>

text \<open>
  The display size of a resolved image, from its natural width and height. \<^verbatim>\<open>Math.round\<close>
  is \<open>round\<close>: the nearest integer, the upper one at a tie.
\<close>

definition MAX_WIDTH :: nat where
  "MAX_WIDTH = 600"

definition scaleImage :: "nat \<Rightarrow> nat \<Rightarrow> int \<times> int" where
  "scaleImage width height =
     (if width > MAX_WIDTH then
        (let ratio = fdiv (of_nat MAX_WIDTH) (of_nat width)
         in (int MAX_WIDTH, round (fmul (of_nat height) ratio)))
      else (int width, int height))"

text \<open>
  What the network and the browser answer when an image is fetched, one constructor for
  each way an awaited step of \<^verbatim>\<open>fetchImageBuffer\<close> can end: \<^verbatim>\<open>fetch\<close> rejects or gives
  a response with its \<^verbatim>\<open>ok\<close> flag; \<^verbatim>\<open>blob()\<close> rejects or gives a blob;
  \<^verbatim>\<open>arrayBuffer()\<close> rejects or gives the bytes; the image element fires \<^verbatim>\<open>onload\<close> with
  the natural size or \<^verbatim>\<open>onerror\<close>.
\<close>

datatype probe = Loaded nat nat | LoadError

datatype bufferStep = BufferRejects | Buffer bytes probe

datatype blobStep = BlobRejects | Blob bufferStep

datatype fetchOutcome = FetchRejects | Response bool blobStep

text \<open>
  The network is a function of the reference and the state of the world when the fetch
  is made, and it changes that state.
\<close>

type_synonym 'w network = "string \<Rightarrow> 'w \<Rightarrow> fetchOutcome \<times> 'w"

datatype jsError = Rejected

record imageData =
  imageBytes :: bytes
  imageWidth :: nat
  imageHeight :: nat

definition probeDimensions :: "probe \<Rightarrow> nat \<times> nat" where
  "probeDimensions p = (case p of Loaded w h \<Rightarrow> (w, h) | LoadError \<Rightarrow> (600, 400))"

text \<open>The steps after a response: \<open>Inl\<close> is an exception thrown inside the \<^verbatim>\<open>try\<close> block.\<close>

definition readImage :: "blobStep \<Rightarrow> jsError + imageData option" where
  "readImage b =
     (case b of
        BlobRejects \<Rightarrow> Inl Rejected
      | Blob bs \<Rightarrow>
          (case bs of
             BufferRejects \<Rightarrow> Inl Rejected
           | Buffer buffer p \<Rightarrow>
               (let (w, h) = probeDimensions p
                in Inr (Some \<lparr>imageBytes = buffer, imageWidth = w, imageHeight = h\<rparr>))))"

text \<open>The \<^verbatim>\<open>try\<close> block of \<^verbatim>\<open>fetchImageBuffer\<close>.\<close>

definition fetchImageTry :: "string \<Rightarrow> fetchOutcome \<Rightarrow> jsError + imageData option" where
  "fetchImageTry url out =
     (if startsWith url ''data:image'' then
        (case out of
           FetchRejects \<Rightarrow> Inl Rejected
         | Response ok b \<Rightarrow> readImage b)
      else
        (case out of
           FetchRejects \<Rightarrow> Inl Rejected
         | Response ok b \<Rightarrow> if \<not> ok then Inr None else readImage b))"

text \<open>\<^verbatim>\<open>fetchImageBuffer\<close>: the \<^verbatim>\<open>catch\<close> block turns every exception into \<^verbatim>\<open>null\<close>.\<close>

definition fetchImageBuffer ::
  "'w network \<Rightarrow> string \<Rightarrow> 'w \<Rightarrow> (jsError + imageData option) \<times> 'w" where
  "fetchImageBuffer net url w =
     (let (out, w') = net url w
      in (case fetchImageTry url out of
            Inl e \<Rightarrow> Inr None
          | Inr r \<Rightarrow> Inr r, w'))"

section \<open>The pieces of the block scanner\<close>

text \<open>\<^verbatim>\<open>/^!\[(.*?)\]\((.*?)\)/\<close> after its first two characters: the shortest alternative
  text that is followed by \<^verbatim>\<open>](\<close>, a reference, as short as possible, and \<^verbatim>\<open>)\<close>.\<close>

fun imageAlt :: "string \<Rightarrow> (string \<times> string) option" where
  "imageAlt [] = None"
| "imageAlt (c # cs) =
     (case (if startsWith (c # cs) ''](''  then lazyUntil '')'' (drop 2 (c # cs)) else None) of
        Some (url, rest) \<Rightarrow> Some ([], url)
      | None \<Rightarrow>
          if isLineTerminator c then None
          else map_option (\<lambda>(alt, url). (c # alt, url)) (imageAlt cs))"

text \<open>\<^verbatim>\<open>line.match(/^!\[(.*?)\]\((.*?)\)/)\<close>: the two groups of the match.\<close>

definition matchImage :: "string \<Rightarrow> (string \<times> string) option" where
  "matchImage line = (if startsWith line ''!['' then imageAlt (drop 2 line) else None)"

text \<open>The label of a caption is the character U+56FE, which is outside the range of
  \<open>char\<close>; it is written as its three bytes in UTF-8.\<close>

definition figureLabel :: string where
  "figureLabel = [CHR 0xE5, CHR 0x9B, CHR 0xBE]"

text \<open>The paragraph pushed for an image line, from the alternative text and the result
  of \<^verbatim>\<open>fetchImageBuffer\<close>.\<close>

definition imageBlock :: "documentStyle \<Rightarrow> string \<Rightarrow> imageData option \<Rightarrow> block" where
  "imageBlock st alt r =
     (case r of
        Some img \<Rightarrow>
          (let (finalWidth, finalHeight) = scaleImage (imageWidth img) (imageHeight img)
           in ParagraphBlock
                \<lparr>pChildren =
                   [ImageRun (imageBytes img) finalWidth finalHeight alt,
                    TextRun \<lparr>runText = CHR 0x0A # figureLabel @ '': '' @ alt,
                      runFont = Some (fontFace st), runSize = Some (fontSize st - 2),
                      runColor = Some ''666666'', runBold = False, runItalics = True,
                      runShading = None\<rparr>],
                 pHeading = None, pAlignment = Some CENTER,
                 pSpacing = Some \<lparr>spLine = None, spBefore = Some 200, spAfter = Some 200\<rparr>\<rparr>)
      | None \<Rightarrow>
          ParagraphBlock
            \<lparr>pChildren =
               [TextRun \<lparr>runText = ''[Image: '' @ alt @ '' - Download Failed]'',
                  runFont = None, runSize = None, runColor = Some ''FF0000'',
                  runBold = False, runItalics = False, runShading = None\<rparr>],
             pHeading = None, pAlignment = Some CENTER, pSpacing = None\<rparr>)"

text \<open>The heading pushed for a line that starts with \<^verbatim>\<open>#\<close>: the level is the number of
  leading \<^verbatim>\<open>#\<close>, the text is what follows them and the white space after them.\<close>

definition headingBlock :: "documentStyle \<Rightarrow> string \<Rightarrow> block" where
  "headingBlock st line =
     (let hashes = length (takeWhile (\<lambda>c. c = CHR ''#'') line);
          level = (if hashes = 0 then 1 else hashes);
          content = dropWhile isWhiteSpace (dropWhile (\<lambda>c. c = CHR ''#'') line)
      in ParagraphBlock
           \<lparr>pChildren =
              parseInlineStyles content (fontFace st)
                (fontSize st + (4 - of_nat level) * 2) (headingColor st),
            pHeading = Some (if level = 1 then HEADING_1
                             else if level = 2 then HEADING_2 else HEADING_3),
            pAlignment = Some (if level = 1 then CENTER else LEFT),
            pSpacing = Some \<lparr>spLine = None, spBefore = Some 400, spAfter = Some 200\<rparr>\<rparr>)"

text \<open>The one-cell table pushed for a code fence, one paragraph for each line of code.\<close>

definition codeBlock :: "string list \<Rightarrow> block" where
  "codeBlock codeLines =
     TableBlock
       [[\<lparr>cellChildren =
            map (\<lambda>cl.
              \<lparr>pChildren =
                 [TextRun \<lparr>runText = cl, runFont = Some ''JetBrains Mono'',
                    runSize = Some 20, runColor = Some ''334155'', runBold = False,
                    runItalics = False, runShading = None\<rparr>],
               pHeading = None, pAlignment = None,
               pSpacing = Some \<lparr>spLine = None, spBefore = Some 20, spAfter = Some 20\<rparr>\<rparr>)
              codeLines,
          cellShading = Some ''F8FAFC'', cellVerticalCenter = False,
          cellBorders = [(1, ''E2E8F0''), (1, ''E2E8F0''), (6, ''3B82F6''), (1, ''E2E8F0'')],
          cellMargins = 200\<rparr>]]"

text \<open>\<^verbatim>\<open>row.replace(/^\||\|$/g, '')\<close>: a pipe at the start is removed, and a pipe at the
  end of what is left.\<close>

definition stripPipes :: "string \<Rightarrow> string" where
  "stripPipes row =
     (let r = (if startsWith row ''|'' then drop 1 row else row)
      in if r \<noteq> [] \<and> last r = CHR ''|'' then butlast r else r)"

definition rowCells :: "string \<Rightarrow> string list" where
  "rowCells row = map trim (js_split ''|'' (stripPipes row))"

text \<open>\<^verbatim>\<open>cell.match(/^-+$/)\<close>\<close>

definition isDashCell :: "string \<Rightarrow> bool" where
  "isDashCell cell \<longleftrightarrow> cell \<noteq> [] \<and> list_all (\<lambda>c. c = CHR ''-'') cell"

text \<open>The cell matrix of a table: the cells of every line, without the rows whose cells
  are all dashes.\<close>

definition tableRows :: "string list \<Rightarrow> string list list" where
  "tableRows tableLines = filter (\<lambda>row. \<not> list_all isDashCell row) (map rowCells tableLines)"

definition tableCellOf :: "documentStyle \<Rightarrow> bool \<Rightarrow> string \<Rightarrow> tableCell" where
  "tableCellOf st header cellText =
     \<lparr>cellChildren =
        [\<lparr>pChildren = parseInlineStyles cellText (fontFace st) (fontSize st) ''#000000'',
          pHeading = None, pAlignment = Some CENTER, pSpacing = None\<rparr>],
      cellShading = (if header then Some ''F3F4F6'' else None),
      cellVerticalCenter = True,
      cellBorders = [(1, ''CBD5E1''), (1, ''CBD5E1''), (1, ''CBD5E1''), (1, ''CBD5E1'')],
      cellMargins = 100\<rparr>"

definition tableBlock :: "documentStyle \<Rightarrow> string list list \<Rightarrow> block" where
  "tableBlock st rows =
     TableBlock
       (map (\<lambda>(rowIndex, row). map (tableCellOf st (rowIndex = 0)) row)
          (zip [0 ..< length rows] rows))"

text \<open>The paragraph pushed for any other line that is not empty. The product
  \<^verbatim>\<open>style.lineSpacing * 240\<close> is a product of doubles.\<close>

definition styleAlignment :: "documentStyle \<Rightarrow> alignmentType" where
  "styleAlignment st =
     (if alignment st = ''center'' then CENTER
      else if alignment st = ''justify'' then JUSTIFIED
      else if alignment st = ''right'' then RIGHT
      else LEFT)"

definition paragraphBlock :: "documentStyle \<Rightarrow> string \<Rightarrow> block" where
  "paragraphBlock st line =
     ParagraphBlock
       \<lparr>pChildren = parseInlineStyles line (fontFace st) (fontSize st) (textColor st),
        pHeading = None, pAlignment = Some (styleAlignment st),
        pSpacing = Some \<lparr>spLine = Some (fmul (lineSpacing st) 240),
          spBefore = Some (paragraphSpacing st), spAfter = Some (paragraphSpacing st)\<rparr>\<rparr>"

section \<open>The block scanner\<close>

text \<open>
  The loop of \<^verbatim>\<open>downloadDocx\<close> walks the lines with an index that only moves forward;
  \<open>scanLines\<close> is that loop on the lines from the index on. It returns the elements
  pushed to \<^verbatim>\<open>sections\<close> from there, in order, and the state of the world after the
  fetches. An exception passed on by an awaited call would end the conversion: the
  result would be \<open>Inl\<close>.
\<close>

definition isFenceLine :: "string \<Rightarrow> bool" where
  "isFenceLine l \<longleftrightarrow> startsWith (trim l) ''```''"

definition isTableLine :: "string \<Rightarrow> bool" where
  "isTableLine l \<longleftrightarrow> startsWith (trim l) ''|''"

definition emit :: "block \<Rightarrow> (jsError + block list) \<times> 'w \<Rightarrow> (jsError + block list) \<times> 'w" where
  "emit b r = (case r of (Inl e, w) \<Rightarrow> (Inl e, w) | (Inr bs, w) \<Rightarrow> (Inr (b # bs), w))"

lemma length_dropWhile_minus:
  "length (dropWhile P xs) - n \<le> length xs"
proof -
  have "length (dropWhile P xs) - n \<le> length (dropWhile P xs)"
    by simp
  also have "\<dots> \<le> length xs"
    by (rule length_dropWhile_le)
  finally show ?thesis .
qed

function scanLines ::
  "'w network \<Rightarrow> documentStyle \<Rightarrow> string list \<Rightarrow> 'w \<Rightarrow> (jsError + block list) \<times> 'w" where
  "scanLines net st [] w = (Inr [], w)"
| "scanLines net st (l # ls) w =
     (let line = trim l in
      if startsWith line ''#'' then
        emit (headingBlock st line) (scanLines net st ls w)
      else
        (case matchImage line of
           Some (alt, url) \<Rightarrow>
             (case fetchImageBuffer net url w of
                (Inl e, w') \<Rightarrow> (Inl e, w')
              | (Inr imgData, w') \<Rightarrow>
                  emit (imageBlock st alt imgData) (scanLines net st ls w'))
         | None \<Rightarrow>
             if startsWith line ''```'' then
               emit (codeBlock (takeWhile (\<lambda>x. \<not> isFenceLine x) ls))
                 (scanLines net st (drop 1 (dropWhile (\<lambda>x. \<not> isFenceLine x) ls)) w)
             else if startsWith line ''|'' then
               (let tableLines = map trim (takeWhile isTableLine (l # ls));
                    rows = tableRows tableLines
                in (if rows \<noteq> [] then emit (tableBlock st rows) else id)
                     (scanLines net st (dropWhile isTableLine (l # ls)) w))
             else
               (if line \<noteq> [] then emit (paragraphBlock st line) else id)
                 (scanLines net st ls w)))"
  by pat_completeness auto
termination
  by (relation "measure (\<lambda>(net, st, ls, w). length ls)")
     (auto simp: isTableLine_def length_dropWhile_minus less_Suc_eq_le length_dropWhile_le)

declare scanLines.simps [simp del]

text \<open>
  \<^verbatim>\<open>downloadDocx\<close> up to the children of the document's section: the lines of the
  markup, scanned in the effective style.
\<close>

definition downloadDocx ::
  "'w network \<Rightarrow> string \<Rightarrow> wordTemplate \<Rightarrow> documentStyle option \<Rightarrow> 'w
     \<Rightarrow> (jsError + block list) \<times> 'w" where
  "downloadDocx net markdown template customStyle w =
     scanLines net (effectiveStyle template customStyle) (js_split [CHR 0x0A] markdown) w"

section \<open>Notions of the statements\<close>

text \<open>The delimiter characters of the inline tokenizer: the emphasis markers, the
  backtick and the dollar sign.\<close>

definition isDelimiter :: "char \<Rightarrow> bool" where
  "isDelimiter c \<longleftrightarrow> c = CHR ''*'' \<or> c = CHR ''_'' \<or> c = CHR ''`'' \<or> c = CHR ''$''"

text \<open>The run that the tokenizer makes of an empty pair of the marker \<open>m\<close>: no text, in
  the style of the marker.\<close>

definition emptyPairRun :: "string \<Rightarrow> string \<Rightarrow> rat \<Rightarrow> string \<Rightarrow> inline" where
  "emptyPairRun m f sz col =
     (if m = ''`'' then codeRun [] ((sz - 1) * 2)
      else styledRun [] f (sz * 2) col (m = ''***'' \<or> m = ''**'' \<or> m = ''__'')
             (m = ''***'' \<or> m = ''_''))"

text \<open>
  A line that starts with a pipe is the pipe followed by its fields, which hold no pipe,
  with a pipe between every two of them.
\<close>

fun joinPipes :: "string list \<Rightarrow> string" where
  "joinPipes [] = []"
| "joinPipes [f] = f"
| "joinPipes (f # g # fs) = f @ ''|'' @ joinPipes (g # fs)"

text \<open>
  The cells of such a line: its fields, without the empty field that a pipe at the end
  of the line leaves behind it, each without the white space around it.
\<close>

definition lineCells :: "string list \<Rightarrow> string list" where
  "lineCells fs = map trim (if 2 \<le> length fs \<and> last fs = [] then butlast fs else fs)"

text \<open>
  A separator row is a row whose cells consist entirely of dashes, colons and white
  space; a row of dashes is one whose cells are all made of one dash or more.
\<close>

definition isSeparatorCell :: "string \<Rightarrow> bool" where
  "isSeparatorCell c \<longleftrightarrow> (\<forall>ch\<in>set c. ch = CHR ''-'' \<or> ch = CHR '':'' \<or> isWhiteSpace ch)"

definition isSeparatorRow :: "string list \<Rightarrow> bool" where
  "isSeparatorRow cells \<longleftrightarrow> (\<forall>c\<in>set cells. isSeparatorCell c)"

definition isDashesRow :: "string list \<Rightarrow> bool" where
  "isDashesRow cells \<longleftrightarrow> (\<forall>c\<in>set cells. c \<noteq> [] \<and> (\<forall>ch\<in>set c. ch = CHR ''-''))"

text \<open>The rows that a table shows: the cells of the lines that are no separator rows.\<close>

definition survivingCells :: "string list list \<Rightarrow> string list list" where
  "survivingCells rows = filter (\<lambda>r. \<not> isSeparatorRow r) (map lineCells rows)"

text \<open>The cell of a table for a cell text, in the first row (the header) or below it.\<close>

definition renderedCell :: "documentStyle \<Rightarrow> bool \<Rightarrow> string \<Rightarrow> tableCell" where
  "renderedCell st header cellText =
     \<lparr>cellChildren =
        [\<lparr>pChildren = parseInlineStyles cellText (fontFace st) (fontSize st) ''#000000'',
          pHeading = None, pAlignment = Some CENTER, pSpacing = None\<rparr>],
      cellShading = (if header then Some ''F3F4F6'' else None),
      cellVerticalCenter = True,
      cellBorders = [(1, ''CBD5E1''), (1, ''CBD5E1''), (1, ''CBD5E1''), (1, ''CBD5E1'')],
      cellMargins = 100\<rparr>"

text \<open>The paragraph of a code block for one line of code.\<close>

definition codeLineParagraph :: "string \<Rightarrow> paragraphOptions" where
  "codeLineParagraph cl =
     \<lparr>pChildren =
        [TextRun \<lparr>runText = cl, runFont = Some ''JetBrains Mono'', runSize = Some 20,
           runColor = Some ''334155'', runBold = False, runItalics = False,
           runShading = None\<rparr>],
      pHeading = None, pAlignment = None,
      pSpacing = Some \<lparr>spLine = None, spBefore = Some 20, spAfter = Some 20\<rparr>\<rparr>"

text \<open>The caption under an image.\<close>

definition captionRun :: "documentStyle \<Rightarrow> string \<Rightarrow> inline" where
  "captionRun st alt =
     TextRun \<lparr>runText = CHR 0x0A # figureLabel @ '': '' @ alt,
       runFont = Some (fontFace st), runSize = Some (fontSize st - 2),
       runColor = Some ''666666'', runBold = False, runItalics = True,
       runShading = None\<rparr>"

text \<open>
  The ways in which the acquisition of an image fails: the fetch is rejected (a network
  error), the response of a remote reference has a status that is not a success, or the
  bytes cannot be read from the response (\<^verbatim>\<open>blob()\<close> or \<^verbatim>\<open>arrayBuffer()\<close> is rejected).
  A reference with embedded data has no status of its own: its fetch gives a successful
  response or is rejected. That the image element cannot decode the bytes is no failure
  of the acquisition: the size 600 by 400 is taken instead.
\<close>

definition acquisitionFails :: "string \<Rightarrow> fetchOutcome \<Rightarrow> bool" where
  "acquisitionFails url out \<longleftrightarrow>
     (case out of
        FetchRejects \<Rightarrow> True
      | Response ok b \<Rightarrow>
          (\<not> ok \<and> \<not> startsWith url ''data:image'') \<or> b = BlobRejects \<or> b = Blob BufferRejects)"

text \<open>The visible placeholder for an image that could not be acquired.\<close>

definition downloadFailedBlock :: "string \<Rightarrow> block" where
  "downloadFailedBlock alt =
     ParagraphBlock
       \<lparr>pChildren =
          [TextRun \<lparr>runText = ''[Image: '' @ alt @ '' - Download Failed]'',
             runFont = None, runSize = None, runColor = Some ''FF0000'',
             runBold = False, runItalics = False, runShading = None\<rparr>],
        pHeading = None, pAlignment = Some CENTER, pSpacing = None\<rparr>"

text \<open>
  The references that a conversion has to fetch, in the order of the document: those of
  the lines that match the image pattern and do not stand inside a code fence. The flag
  tells whether a fence is open.
\<close>

fun fetchedReferences :: "bool \<Rightarrow> string list \<Rightarrow> string list" where
  "fetchedReferences inFence [] = []"
| "fetchedReferences inFence (l # ls) =
     (if isFenceLine l then fetchedReferences (\<not> inFence) ls
      else if inFence then fetchedReferences inFence ls
      else (case matchImage (trim l) of
              Some (alt, url) \<Rightarrow> url # fetchedReferences inFence ls
            | None \<Rightarrow> fetchedReferences inFence ls))"

text \<open>A network that answers every reference \<open>u\<close> with the fixed outcome \<open>r u\<close>, and whose
  state is the list of the references fetched so far, the latest last.\<close>

definition recording :: "(string \<Rightarrow> fetchOutcome) \<Rightarrow> string list network" where
  "recording r u tr = (r u, tr @ [u])"

text \<open>
  The outcomes of fetching a list of references one after the other, each fetch in the
  state that the one before it has left; and the network that hands out a given list of
  outcomes in its order, whatever is asked, and then rejects. Its state is the number
  of fetches made.
\<close>

fun sequentialOutcomes :: "'w network \<Rightarrow> 'w \<Rightarrow> string list \<Rightarrow> fetchOutcome list" where
  "sequentialOutcomes net w [] = []"
| "sequentialOutcomes net w (u # us) =
     fst (net u w) # sequentialOutcomes net (snd (net u w)) us"

definition replay :: "fetchOutcome list \<Rightarrow> nat network" where
  "replay outs u n = ((if n < length outs then outs ! n else FetchRejects), Suc n)"

section \<open>Facts about the string primitives and the patterns\<close>

lemma startsWith_Nil [simp]: "startsWith s [] = True"
  by (simp add: startsWith_def)

lemma startsWith_empty [simp]: "startsWith [] (c # p) = False"
  by (simp add: startsWith_def)

lemma startsWith_Cons [simp]: "startsWith (c # s) (c' # p) \<longleftrightarrow> c = c' \<and> startsWith s p"
  by (simp add: startsWith_def)

lemma startsWith_notin: "c \<notin> set s \<Longrightarrow> \<not> startsWith s (c # p)"
  by (cases s) auto

lemma lazyUntil_notin: "c \<notin> set s \<Longrightarrow> lazyUntil (c # d) s = None"
  by (induction s) auto

lemma matchMath_notin: "c \<notin> set s \<Longrightarrow> matchMath (c # d) s = None"
  by (cases s) (auto simp: matchMath_def)

lemma replaceMath_notin:
  "c \<notin> set s \<Longrightarrow> replaceMath (c # d) tag disp s idx = (s, [], idx)"
proof (induction s)
  case Nil
  show ?case by simp
next
  case (Cons a s)
  then have "matchMath (c # d) (a # s) = None"
    by (intro matchMath_notin) simp
  with Cons show ?case by simp
qed

lemma styleMarkers_plain: "\<not> isDelimiter c \<Longrightarrow> styleMarkers (c # s) = []"
  by (auto simp: styleMarkers_def isDelimiter_def)

lemma execStyle_plain: "\<forall>c\<in>set s. \<not> isDelimiter c \<Longrightarrow> execStyle s = None"
  by (induction s) (auto simp: matchStyle_def styleMarkers_plain)

lemma execStyle_prepend:
  "\<forall>c\<in>set pre. \<not> isDelimiter c \<Longrightarrow>
   execStyle (pre @ s) = map_option (\<lambda>(p, m, x, r). (pre @ p, m, x, r)) (execStyle s)"
proof (induction pre)
  case Nil
  show ?case by (simp add: option.map_ident)
next
  case (Cons a pre)
  then show ?case
    by (simp add: matchStyle_def styleMarkers_plain option.map_comp comp_def split_def)
qed

lemma segmentsOf_plain:
  "\<forall>c\<in>set s. \<not> isDelimiter c \<Longrightarrow>
   segmentsOf s = (if s \<noteq> [] then [\<lparr>segText = s, segStyle = None\<rparr>] else [])"
  by (subst segmentsOf.simps) (simp add: execStyle_plain)

lemma segmentRuns_plain:
  "segmentRuns [] f sz col \<lparr>segText = t, segStyle = None\<rparr> =
     [styledRun t f (sz * 2) col False False]"
  by (simp add: segmentRuns_def)

lemma matchStyle_empty_pair:
  assumes m: "m = ''***'' \<or> m = ''**'' \<or> m = ''__'' \<or> m = ''_'' \<or> m = ''`''"
    and post: "\<forall>c\<in>set post. \<not> isDelimiter c"
  shows "matchStyle (m @ m @ post) = Some (m, [], post)"
proof -
  from post have n: "CHR ''*'' \<notin> set post" "CHR ''_'' \<notin> set post" "CHR ''`'' \<notin> set post"
    by (auto simp: isDelimiter_def)
  from m show ?thesis
    by (elim disjE)
       (simp_all add: matchStyle_def styleMarkers_def lazyUntil_notin n startsWith_notin
          isLineTerminator_def)
qed

lemma segments_empty_pair:
  assumes m: "m = ''***'' \<or> m = ''**'' \<or> m = ''__'' \<or> m = ''_'' \<or> m = ''`''"
    and pre: "\<forall>c\<in>set pre. \<not> isDelimiter c"
    and post: "\<forall>c\<in>set post. \<not> isDelimiter c"
  shows "segmentsOf (pre @ m @ m @ post) =
     (if pre \<noteq> [] then [\<lparr>segText = pre, segStyle = None\<rparr>] else [])
     @ \<lparr>segText = [], segStyle = Some m\<rparr>
     # (if post \<noteq> [] then [\<lparr>segText = post, segStyle = None\<rparr>] else [])"
proof -
  from m obtain c cs where mm: "m @ m @ post = c # cs"
    by (cases m) auto
  have "execStyle (m @ m @ post) = Some ([], m, [], post)"
    using matchStyle_empty_pair [OF m post] unfolding mm by simp
  then have "execStyle (pre @ m @ m @ post) = Some (pre, m, [], post)"
    by (simp add: execStyle_prepend [OF pre])
  then show ?thesis
    by (subst segmentsOf.simps) (simp add: segmentsOf_plain [OF post])
qed

lemma segmentRuns_empty_pair:
  assumes m: "m = ''***'' \<or> m = ''**'' \<or> m = ''__'' \<or> m = ''_'' \<or> m = ''`''"
  shows "segmentRuns [] f sz col \<lparr>segText = [], segStyle = Some m\<rparr> = [emptyPairRun m f sz col]"
  using m by (elim disjE) (simp_all add: segmentRuns_def emptyPairRun_def)

lemma lazyUntil_shape:
  "lazyUntil d s = Some (x, r) \<Longrightarrow> s = x @ d @ r \<and> (\<forall>c\<in>set x. \<not> isLineTerminator c)"
proof (induction s arbitrary: x)
  case Nil
  then show ?case by (simp split: if_splits)
next
  case (Cons c cs)
  show ?case
  proof (cases "startsWith (c # cs) d")
    case True
    with Cons.prems have "x = []" "r = drop (length d) (c # cs)"
      by simp_all
    moreover from True have "c # cs = d @ drop (length d) (c # cs)"
      unfolding startsWith_def by (metis append_take_drop_id)
    ultimately show ?thesis by simp
  next
    case False
    with Cons.prems obtain x' where "\<not> isLineTerminator c" "lazyUntil d cs = Some (x', r)" "x = c # x'"
      by (auto split: if_splits)
    with Cons.IH [of x'] show ?thesis by simp
  qed
qed

lemma take_covered: "n \<le> length p \<Longrightarrow> take n (p @ a) = take n (p @ b)"
  by simp

lemma lazyUntil_here: "lazyUntil d (d @ r') = Some ([], r')"
proof (cases "d @ r'")
  case Nil
  then show ?thesis by simp
next
  case (Cons a list)
  have "startsWith (d @ r') d"
    by (simp add: startsWith_def)
  then have "startsWith (a # list) d"
    by (simp only: Cons)
  then have "lazyUntil d (a # list) = Some ([], drop (length d) (a # list))"
    by (simp del: startsWith_Cons)
  then have "lazyUntil d (d @ r') = Some ([], drop (length d) (d @ r'))"
    by (simp only: Cons)
  then show ?thesis
    by simp
qed

lemma lazyUntil_first:
  "lazyUntil d s = Some (x, r) \<Longrightarrow> lazyUntil d (x @ d @ r') = Some (x, r')"
proof (induction s arbitrary: x)
  case Nil
  then have "x = []" "d = []"
    by (simp_all split: if_splits)
  then show ?case
    using lazyUntil_here [of "[]" r'] by simp
next
  case (Cons c cs)
  show ?case
  proof (cases "startsWith (c # cs) d")
    case True
    with Cons.prems have "x = []" by simp
    then show ?thesis
      by (simp add: lazyUntil_here)
  next
    case False
    with Cons.prems obtain x' where x': "\<not> isLineTerminator c" "lazyUntil d cs = Some (x', r)" "x = c # x'"
      by (auto split: if_splits)
    from lazyUntil_shape [OF x'(2)] have cs: "cs = x' @ d @ r"
      by simp
    have "take (length d) ((c # x' @ d) @ r') = take (length d) ((c # x' @ d) @ r)"
      by (rule take_covered) simp
    then have "take (length d) (c # x' @ d @ r') = take (length d) (c # x' @ d @ r)"
      by simp
    with False have "\<not> startsWith (c # x' @ d @ r') d"
      unfolding startsWith_def cs by simp
    with Cons.IH [OF x'(2)] x' show ?thesis
      by simp
  qed
qed

lemma lazyUntil_paren_found:
  "\<forall>c\<in>set t. \<not> isLineTerminator c \<Longrightarrow> lazyUntil '')'' (t @ '')'' @ r) \<noteq> None"
  by (induction t) auto

lemma imageAlt_shape:
  "imageAlt s = Some (alt, url) \<Longrightarrow>
   (\<exists>r. s = alt @ '']('' @ url @ '')'' @ r) \<and> (\<forall>c\<in>set alt. \<not> isLineTerminator c)
     \<and> (\<forall>c\<in>set url. \<not> isLineTerminator c)"
proof (induction s arbitrary: alt)
  case Nil
  then show ?case by simp
next
  case (Cons c cs)
  show ?case
  proof (cases "if startsWith (c # cs) ''](''  then lazyUntil '')'' (drop 2 (c # cs)) else None")
    case (Some a)
    obtain u r where a: "a = (u, r)" by (cases a)
    from Some a have sw: "startsWith (c # cs) ''](''" and l: "lazyUntil '')'' (drop 2 (c # cs)) = Some (u, r)"
      by (auto split: if_splits)
    from Cons.prems Some a have e: "alt = []" "url = u"
      by simp_all
    from sw have "c # cs = ''](''  @ drop 2 (c # cs)"
      unfolding startsWith_def by (metis append_take_drop_id length_Cons list.size(3) numeral_2_eq_2)
    with lazyUntil_shape [OF l] e show ?thesis
      by auto
  next
    case None
    with Cons.prems obtain alt' where a: "\<not> isLineTerminator c" "imageAlt cs = Some (alt', url)" "alt = c # alt'"
      by (auto split: if_splits)
    from Cons.IH [OF a(2)] a show ?thesis
      by auto
  qed
qed

lemma imageAlt_first:
  "imageAlt s = Some (alt, url) \<Longrightarrow> imageAlt (alt @ ''](''  @ url @ '')'' @ r') = Some (alt, url)"
proof (induction s arbitrary: alt)
  case Nil
  then show ?case by simp
next
  case (Cons c cs)
  show ?case
  proof (cases "if startsWith (c # cs) ''](''  then lazyUntil '')'' (drop 2 (c # cs)) else None")
    case (Some a)
    obtain u r where a: "a = (u, r)" by (cases a)
    from Some a have l: "lazyUntil '')'' (drop 2 (c # cs)) = Some (u, r)"
      by (auto split: if_splits)
    from Cons.prems Some a have e: "alt = []" "url = u"
      by simp_all
    from lazyUntil_first [OF l, of r'] e show ?thesis
      by simp
  next
    case None
    with Cons.prems obtain alt' where a: "\<not> isLineTerminator c" "imageAlt cs = Some (alt', url)" "alt = c # alt'"
      by (auto split: if_splits)
    from imageAlt_shape [OF a(2)] obtain r where cs: "cs = alt' @ ''](''  @ url @ '')'' @ r"
      and nl: "\<forall>c\<in>set alt'. \<not> isLineTerminator c" "\<forall>c\<in>set url. \<not> isLineTerminator c"
      by blast
    have "\<not> startsWith (c # alt' @ ''](''  @ url @ '')'' @ r') ''](''"
    proof
      assume sw: "startsWith (c # alt' @ ''](''  @ url @ '')'' @ r') ''](''"
      then have sw': "startsWith (c # cs) ''](''"
        unfolding cs by (cases alt') auto
      have "drop 2 (c # cs) = tl (alt' @ ''](''  @ url) @ '')'' @ r"
        unfolding cs by (cases alt') auto
      moreover have "\<forall>c\<in>set (tl (alt' @ ''](''  @ url)). \<not> isLineTerminator c"
        using nl by (cases alt') (auto simp: isLineTerminator_def)
      ultimately have "lazyUntil '')'' (drop 2 (c # cs)) \<noteq> None"
        using lazyUntil_paren_found by metis
      with None sw' show False
        by simp
    qed
    then have "(if startsWith (c # alt' @ ''](''  @ url @ '')'' @ r') ''](''
          then lazyUntil '')'' (drop 2 (c # alt' @ ''](''  @ url @ '')'' @ r')) else None) = None"
      by (simp only: if_False)
    then have "imageAlt (c # alt' @ ''](''  @ url @ '')'' @ r') =
        map_option (\<lambda>(alt, url). (c # alt, url)) (imageAlt (alt' @ ''](''  @ url @ '')'' @ r'))"
      using a(1) by (simp only: imageAlt.simps option.case if_False)
    with Cons.IH [OF a(2)] a(3) show ?thesis
      by simp
  qed
qed

lemma dropWhile_hd: "s \<noteq> [] \<Longrightarrow> \<not> P (hd s) \<Longrightarrow> dropWhile P s = s"
  by (cases s) auto

lemma trim_id:
  assumes "s \<noteq> []" "\<not> isWhiteSpace (hd s)" "\<not> isWhiteSpace (last s)"
  shows "trim s = s"
proof -
  have "dropWhile isWhiteSpace s = s"
    using assms(1,2) by (rule dropWhile_hd)
  moreover have "dropWhile isWhiteSpace (rev s) = rev s"
    using assms(1,3) by (intro dropWhile_hd) (simp_all add: hd_rev)
  ultimately show ?thesis
    by (simp add: trim_def)
qed

lemma matchImage_canonical:
  assumes "matchImage s = Some (alt, url)"
  shows "matchImage (''!['' @ alt @ ''](''  @ url @ '')'' @ r') = Some (alt, url)"
proof -
  from assms have "imageAlt (drop 2 s) = Some (alt, url)"
    by (simp add: matchImage_def split: if_splits)
  from imageAlt_first [OF this, of r'] show ?thesis
    by (simp add: matchImage_def)
qed

section \<open>The inline tokenizer on its examples\<close>

text \<open>
  C1. Inline math is cut out before the emphasis scan and put back as a math run, so the
  line \<^verbatim>\<open>$a_b$ is *legal*\<close> should give a math run \<^verbatim>\<open>a_b\<close>, a plain run and an italic
  run. The code gives something else: the placeholder \<^verbatim>\<open>__MATH_INLINE_0__\<close> that stands
  for the math span begins and ends with the bold marker \<^verbatim>\<open>__\<close>, so the emphasis scan
  reads it as bold text \<^verbatim>\<open>MATH_INLINE_0\<close> and the math content is lost; and a single
  star is no marker of the scan, so \<^verbatim>\<open>*legal*\<close> stays plain text. The older variant,
  which has no placeholders, gives the math run, and leaves \<^verbatim>\<open>*legal*\<close> plain as well.
\<close>

theorem math_placeholder_read_as_bold:
  "parseInlineStyles ''$a_b$ is *legal*'' f sz col =
     [styledRun ''MATH_INLINE_0'' f (sz * 2) col True False,
      styledRun '' is *legal*'' f (sz * 2) col False False] \<and>
   parseInlineStylesOld ''$a_b$ is *legal*'' f fsz =
     [oldRun ''a_b'' ''Cambria Math'' fsz False True,
      oldRun '' is *legal*'' f fsz False False]"
  by code_simp

text \<open>
  C7, as stated: an empty delimiter pair produces no run. It fails: the line \<^verbatim>\<open>****\<close>
  is matched as the marker \<^verbatim>\<open>**\<close> around the empty text, and the loop over the segments
  pushes a bold run for it, with the empty text.
\<close>

theorem empty_pair_gives_empty_run:
  "parseInlineStyles ''****'' ''SimSun'' 12 ''000000'' =
     [styledRun [] ''SimSun'' 24 ''000000'' True False]"
  by code_simp

text \<open>
  C7, amended: an empty pair of a marker of the scan (\<^verbatim>\<open>***\<close>, \<^verbatim>\<open>**\<close>, \<^verbatim>\<open>__\<close>, \<^verbatim>\<open>_\<close> or a
  backtick, followed at once by the same marker), between texts without delimiter
  characters, produces exactly one run, with the empty text and in the style of the
  marker; the texts before and after it are plain runs when they are not empty.
\<close>

theorem empty_pair_one_empty_run:
  assumes m: "m = ''***'' \<or> m = ''**'' \<or> m = ''__'' \<or> m = ''_'' \<or> m = ''`''"
    and pre: "\<forall>c\<in>set pre. \<not> isDelimiter c"
    and post: "\<forall>c\<in>set post. \<not> isDelimiter c"
  shows "parseInlineStyles (pre @ m @ m @ post) f sz col =
     (if pre \<noteq> [] then [styledRun pre f (sz * 2) col False False] else [])
     @ emptyPairRun m f sz col
     # (if post \<noteq> [] then [styledRun post f (sz * 2) col False False] else [])"
proof -
  have "CHR ''$'' \<notin> set m"
    using m by (elim disjE) simp_all
  then have d: "CHR ''$'' \<notin> set (pre @ m @ m @ post)"
    using pre post by (auto simp: isDelimiter_def)
  have "parseInlineStyles (pre @ m @ m @ post) f sz col =
      concat (map (segmentRuns [] f sz col) (segmentsOf (pre @ m @ m @ post)))"
    by (simp add: parseInlineStyles_def replaceMath_notin [OF d])
  also have "\<dots> = (if pre \<noteq> [] then [styledRun pre f (sz * 2) col False False] else [])
     @ emptyPairRun m f sz col
     # (if post \<noteq> [] then [styledRun post f (sz * 2) col False False] else [])"
    unfolding segments_empty_pair [OF m pre post]
    by (simp add: segmentRuns_plain segmentRuns_empty_pair [OF m])
  finally show ?thesis .
qed

theorem empty_pair_one_empty_run_witness:
  "parseInlineStyles ''a****b'' ''SimSun'' 12 ''000000'' =
     [styledRun ''a'' ''SimSun'' 24 ''000000'' False False,
      styledRun [] ''SimSun'' 24 ''000000'' True False,
      styledRun ''b'' ''SimSun'' 24 ''000000'' False False]"
  using empty_pair_one_empty_run [of "''**''" "''a''" "''b''" "''SimSun''" 12 "''000000''"]
  by (simp add: isDelimiter_def emptyPairRun_def)

text \<open>
  C9, as stated: every line without delimiter characters gives exactly one run. It
  fails for the empty line, which gives no run: the text left after the last match is
  pushed only when it is not empty.
\<close>

theorem empty_line_gives_no_run:
  "parseInlineStyles [] ''SimSun'' 12 ''000000'' = []"
  by code_simp

text \<open>
  C9, amended: every line that is not empty and contains no delimiter character gives
  exactly one run, whose text is the line, without emphasis, code styling or math.
\<close>

theorem plain_line_one_run:
  assumes "line \<noteq> []" and "\<forall>c\<in>set line. \<not> isDelimiter c"
  shows "parseInlineStyles line f sz col = [styledRun line f (sz * 2) col False False]"
proof -
  from assms(2) have d: "CHR ''$'' \<notin> set line"
    by (auto simp: isDelimiter_def)
  show ?thesis
    using assms
    by (simp add: parseInlineStyles_def replaceMath_notin [OF d] segmentsOf_plain
          segmentRuns_plain)
qed

theorem plain_line_one_run_witness:
  "parseInlineStyles ''Hello, world'' ''SimSun'' 12 ''000000'' =
     [styledRun ''Hello, world'' ''SimSun'' 24 ''000000'' False False]"
  using plain_line_one_run [of "''Hello, world''" "''SimSun''" 12 "''000000''"]
  by (simp add: isDelimiter_def)

section \<open>The block scanner: its branches, and that it always returns\<close>

lemma fetchImageBuffer_returns:
  "\<exists>r. fetchImageBuffer net url w = (Inr r, snd (net url w))"
  by (cases "fetchImageTry url (fst (net url w))")
     (simp_all add: fetchImageBuffer_def split_def Let_def)

lemma emit_Inr [simp]: "emit b (Inr bs, w) = (Inr (b # bs), w)"
  by (simp add: emit_def)

lemma matchImage_prefix: "matchImage s = Some (alt, url) \<Longrightarrow> startsWith s ''![''"
  by (simp add: matchImage_def split: if_splits)

lemma startsWith_bang: "startsWith s ''!['' \<Longrightarrow> \<not> startsWith s ''#''"
  by (cases s) auto

lemma fence_not_image: "startsWith s ''```'' \<Longrightarrow> matchImage s = None"
  by (cases s) (auto simp: matchImage_def)

lemma fence_not_heading: "startsWith s ''```'' \<Longrightarrow> \<not> startsWith s ''#''"
  by (cases s) auto

lemma fence_not_pipe: "startsWith s ''```'' \<Longrightarrow> \<not> startsWith s ''|''"
  by (cases s) auto

lemma pipe_not_image: "startsWith s ''|'' \<Longrightarrow> matchImage s = None"
  by (cases s) (auto simp: matchImage_def)

lemma pipe_not_heading: "startsWith s ''|'' \<Longrightarrow> \<not> startsWith s ''#''"
  by (cases s) auto

lemma scan_heading:
  "startsWith (trim l) ''#'' \<Longrightarrow>
   scanLines net st (l # ls) w = emit (headingBlock st (trim l)) (scanLines net st ls w)"
  by (simp add: scanLines.simps)

lemma scan_image:
  assumes "matchImage (trim l) = Some (alt, url)"
  shows "scanLines net st (l # ls) w =
     (case fetchImageBuffer net url w of
        (Inl e, w') \<Rightarrow> (Inl e, w')
      | (Inr imgData, w') \<Rightarrow> emit (imageBlock st alt imgData) (scanLines net st ls w'))"
  using assms startsWith_bang [OF matchImage_prefix [OF assms]]
  by (simp add: scanLines.simps)

lemma scan_fence:
  assumes "isFenceLine l"
  shows "scanLines net st (l # ls) w =
     emit (codeBlock (takeWhile (\<lambda>x. \<not> isFenceLine x) ls))
       (scanLines net st (drop 1 (dropWhile (\<lambda>x. \<not> isFenceLine x) ls)) w)"
proof -
  from assms have "startsWith (trim l) ''```''"
    by (simp add: isFenceLine_def)
  then show ?thesis
    by (subst scanLines.simps)
       (simp add: fence_not_image fence_not_heading Let_def del: startsWith_Cons)
qed

lemma scan_table:
  assumes "isTableLine l"
  shows "scanLines net st (l # ls) w =
     (let rows = tableRows (map trim (takeWhile isTableLine (l # ls)))
      in (if rows \<noteq> [] then emit (tableBlock st rows) else id)
           (scanLines net st (dropWhile isTableLine (l # ls)) w))"
proof -
  from assms have p: "startsWith (trim l) ''|''"
    by (simp add: isTableLine_def)
  have "\<not> startsWith (trim l) ''```''"
    using p by (cases "trim l") auto
  with p show ?thesis
    by (subst scanLines.simps) (simp add: pipe_not_image pipe_not_heading Let_def del: startsWith_Cons)
qed

lemma scan_other:
  assumes "\<not> startsWith (trim l) ''#''" "matchImage (trim l) = None"
    "\<not> isFenceLine l" "\<not> isTableLine l"
  shows "scanLines net st (l # ls) w =
     (if trim l \<noteq> [] then emit (paragraphBlock st (trim l)) else id) (scanLines net st ls w)"
  using assms
  by (subst scanLines.simps) (simp add: isFenceLine_def isTableLine_def Let_def del: startsWith_Cons)

lemma line_cases [case_names heading image fence table other]:
  obtains "startsWith (trim l) ''#''"
  | alt url where "matchImage (trim l) = Some (alt, url)"
  | "isFenceLine l"
  | "isTableLine l"
  | "\<not> startsWith (trim l) ''#''" "matchImage (trim l) = None"
    "\<not> isFenceLine l" "\<not> isTableLine l"
  by (cases "matchImage (trim l)") auto

lemma scan_total: "\<exists>bs w'. scanLines net st ls w = (Inr bs, w')"
proof (induction ls arbitrary: w rule: length_induct)
  case (1 ls)
  show ?case
  proof (cases ls)
    case Nil
    then show ?thesis by (simp add: scanLines.simps)
  next
    case (Cons l ls')
    have IH: "\<exists>bs w'. scanLines net st xs v = (Inr bs, w')" if "length xs \<le> length ls'" for xs v
      using 1 that Cons by simp
    show ?thesis
    proof (cases l rule: line_cases)
      case heading
      from IH [of ls' w] show ?thesis
        unfolding Cons scan_heading [OF heading] by auto
    next
      case (image alt url)
      obtain r where r: "fetchImageBuffer net url w = (Inr r, snd (net url w))"
        using fetchImageBuffer_returns [of net url w] by blast
      from IH [of ls' "snd (net url w)"] show ?thesis
        unfolding Cons scan_image [OF image] r by auto
    next
      case fence
      have "length (drop 1 (dropWhile (\<lambda>x. \<not> isFenceLine x) ls')) \<le> length ls'"
        using length_dropWhile_le [of "\<lambda>x. \<not> isFenceLine x" ls'] by simp
      from IH [OF this, of w] show ?thesis
        unfolding Cons scan_fence [OF fence] by auto
    next
      case table
      have "length (dropWhile isTableLine (l # ls')) \<le> length ls'"
        using table length_dropWhile_le [of isTableLine ls'] by simp
      from IH [OF this, of w] show ?thesis
        unfolding Cons scan_table [OF table] by (auto simp: Let_def)
    next
      case other
      from IH [of ls' w] show ?thesis
        unfolding Cons scan_other [OF other] by auto
    qed
  qed
qed

lemma fetchImageBuffer_fails:
  assumes "acquisitionFails url (fst (net url w))"
  shows "fetchImageBuffer net url w = (Inr None, snd (net url w))"
proof (cases "fst (net url w)")
  case FetchRejects
  then show ?thesis
    by (simp add: fetchImageBuffer_def fetchImageTry_def split_def Let_def)
next
  case (Response ok b)
  with assms have "(\<not> ok \<and> \<not> startsWith url ''data:image'') \<or> b = BlobRejects \<or> b = Blob BufferRejects"
    by (simp add: acquisitionFails_def)
  then show ?thesis
    using Response
    by (auto simp: fetchImageBuffer_def fetchImageTry_def readImage_def split_def Let_def
          simp del: startsWith_Cons)
qed

lemma fst_emit:
  "fst (emit b r) = (case fst r of Inl e \<Rightarrow> Inl e | Inr bs \<Rightarrow> Inr (b # bs))"
  by (cases r) (auto simp: emit_def split: sum.splits)

lemma fetchImageBuffer_fst:
  "fst (fetchImageBuffer net url w) =
     (case fetchImageTry url (fst (net url w)) of Inl e \<Rightarrow> Inr None | Inr r \<Rightarrow> Inr r)"
  by (simp add: fetchImageBuffer_def split_def Let_def)

lemma takeWhile_stop: "\<not> P l \<Longrightarrow> takeWhile P (xs @ l # rest) = takeWhile P xs"
  by (induction xs) auto

lemma dropWhile_stop: "\<not> P l \<Longrightarrow> dropWhile P (xs @ l # rest) = dropWhile P xs @ l # rest"
  by (induction xs) auto

lemma fences_dropWhile_table:
  "filter isFenceLine (dropWhile isTableLine xs) = filter isFenceLine xs"
proof (induction xs)
  case Nil
  show ?case by simp
next
  case (Cons x xs)
  have "isTableLine x \<Longrightarrow> \<not> isFenceLine x"
    using fence_not_pipe [of "trim x"] by (auto simp: isTableLine_def isFenceLine_def)
  with Cons show ?case by simp
qed

lemma fences_after_closing:
  assumes "odd (length (filter isFenceLine xs))"
  shows "dropWhile (\<lambda>x. \<not> isFenceLine x) xs \<noteq> [] \<and>
     even (length (filter isFenceLine (drop 1 (dropWhile (\<lambda>x. \<not> isFenceLine x) xs))))"
  using assms
proof (induction xs)
  case Nil
  then show ?case by simp
next
  case (Cons x xs)
  then show ?case by (cases "isFenceLine x") auto
qed

lemma scan_append:
  assumes "even (length (filter isFenceLine pre))" and "\<not> isTableLine l"
    and "scanLines net st pre w = (Inr bs, w')"
    and "scanLines net st (l # rest) w' = (Inr cs, w'')"
  shows "scanLines net st (pre @ l # rest) w = (Inr (bs @ cs), w'')"
  using assms(1,3)
proof (induction pre arbitrary: w bs rule: length_induct)
  case (1 pre)
  show ?case
  proof (cases pre)
    case Nil
    with "1.prems" assms(4) show ?thesis
      by (simp add: scanLines.simps(1))
  next
    case (Cons l0 ls0)
    have IH: "scanLines net st (xs @ l # rest) v = (Inr (ds @ cs), w'')"
      if "length xs \<le> length ls0" "even (length (filter isFenceLine xs))"
        "scanLines net st xs v = (Inr ds, w')" for xs v ds
      using 1 that Cons by simp
    show ?thesis
    proof (cases l0 rule: line_cases)
      case heading
      then have nf: "\<not> isFenceLine l0"
        using fence_not_heading [of "trim l0"] by (auto simp: isFenceLine_def)
      obtain ds v where r: "scanLines net st ls0 w = (Inr ds, v)"
        using scan_total [of net st ls0 w] by blast
      with "1.prems"(2) have e: "bs = headingBlock st (trim l0) # ds" "v = w'"
        unfolding Cons scan_heading [OF heading] by simp_all
      have "scanLines net st (ls0 @ l # rest) w = (Inr (ds @ cs), w'')"
        using "1.prems"(1) nf r e by (intro IH) (simp_all add: Cons)
      then show ?thesis
        unfolding Cons using e by (simp add: scan_heading [OF heading])
    next
      case (image alt url)
      then have nf: "\<not> isFenceLine l0"
        using fence_not_image [of "trim l0"] by (auto simp: isFenceLine_def)
      obtain r0 where f: "fetchImageBuffer net url w = (Inr r0, snd (net url w))"
        using fetchImageBuffer_returns [of net url w] by blast
      obtain ds v where r: "scanLines net st ls0 (snd (net url w)) = (Inr ds, v)"
        using scan_total [of net st ls0 "snd (net url w)"] by blast
      with "1.prems"(2) have e: "bs = imageBlock st alt r0 # ds" "v = w'"
        unfolding Cons scan_image [OF image] f by simp_all
      have "scanLines net st (ls0 @ l # rest) (snd (net url w)) = (Inr (ds @ cs), w'')"
        using "1.prems"(1) nf r e by (intro IH) (simp_all add: Cons)
      then show ?thesis
        unfolding Cons using e by (simp add: scan_image [OF image] f)
    next
      case fence
      let ?P = "\<lambda>x. \<not> isFenceLine x"
      from "1.prems"(1) fence have "odd (length (filter isFenceLine ls0))"
        by (simp add: Cons)
      from fences_after_closing [OF this]
      have ne: "dropWhile ?P ls0 \<noteq> []"
        and ev: "even (length (filter isFenceLine (drop 1 (dropWhile ?P ls0))))"
        by simp_all
      from ne obtain x where x: "x \<in> set ls0" "\<not> ?P x"
        by (metis dropWhile_eq_Nil_conv)
      have tw: "takeWhile ?P (ls0 @ l # rest) = takeWhile ?P ls0"
        using x by (intro takeWhile_append1) auto
      from ne obtain y ys where y: "dropWhile ?P ls0 = y # ys"
        by (cases "dropWhile ?P ls0") auto
      have "dropWhile ?P (ls0 @ l # rest) = dropWhile ?P ls0 @ l # rest"
        using x by (intro dropWhile_append1) auto
      then have dw: "drop 1 (dropWhile ?P (ls0 @ l # rest)) = drop 1 (dropWhile ?P ls0) @ l # rest"
        by (simp add: y)
      obtain ds v where r: "scanLines net st (drop 1 (dropWhile ?P ls0)) w = (Inr ds, v)"
        using scan_total [of net st "drop 1 (dropWhile ?P ls0)" w] by blast
      with "1.prems"(2) have e: "bs = codeBlock (takeWhile ?P ls0) # ds" "v = w'"
        unfolding Cons scan_fence [OF fence] by simp_all
      have "length (drop 1 (dropWhile ?P ls0)) \<le> length ls0"
        using length_dropWhile_le [of ?P ls0] by simp
      then have "scanLines net st (drop 1 (dropWhile ?P ls0) @ l # rest) w = (Inr (ds @ cs), w'')"
        using ev r e by (intro IH) simp_all
      then show ?thesis
        unfolding Cons append_Cons scan_fence [OF fence] tw dw e(1) by simp
    next
      case table
      then have nf: "\<not> isFenceLine l0"
        using fence_not_pipe [of "trim l0"] by (auto simp: isTableLine_def isFenceLine_def)
      let ?rows = "tableRows (trim l0 # map trim (takeWhile isTableLine ls0))"
      have tw: "takeWhile isTableLine (ls0 @ l # rest) = takeWhile isTableLine ls0"
        using takeWhile_stop [of isTableLine l ls0 rest] assms(2) by simp
      have dw: "dropWhile isTableLine (ls0 @ l # rest) = dropWhile isTableLine ls0 @ l # rest"
        using dropWhile_stop [of isTableLine l ls0 rest] assms(2) by simp
      have s1: "scanLines net st (l0 # ls0) w =
          (if ?rows \<noteq> [] then emit (tableBlock st ?rows) else id)
            (scanLines net st (dropWhile isTableLine ls0) w)"
        using table by (simp add: scan_table Let_def)
      have s2: "scanLines net st (l0 # ls0 @ l # rest) w =
          (if ?rows \<noteq> [] then emit (tableBlock st ?rows) else id)
            (scanLines net st (dropWhile isTableLine ls0 @ l # rest) w)"
        using table by (simp add: scan_table tw dw Let_def)
      obtain ds v where r: "scanLines net st (dropWhile isTableLine ls0) w = (Inr ds, v)"
        using scan_total [of net st "dropWhile isTableLine ls0" w] by blast
      with "1.prems"(2)
      have e: "bs = (if ?rows \<noteq> [] then [tableBlock st ?rows] else []) @ ds" "v = w'"
        unfolding Cons s1 by (auto split: if_splits)
      have "even (length (filter isFenceLine (dropWhile isTableLine ls0)))"
        using "1.prems"(1) nf by (simp add: Cons fences_dropWhile_table)
      then have "scanLines net st (dropWhile isTableLine ls0 @ l # rest) w = (Inr (ds @ cs), w'')"
        using r e length_dropWhile_le [of isTableLine ls0] by (intro IH) simp_all
      then show ?thesis
        unfolding Cons append_Cons s2 e(1) by simp
    next
      case other
      obtain ds v where r: "scanLines net st ls0 w = (Inr ds, v)"
        using scan_total [of net st ls0 w] by blast
      with "1.prems"(2)
      have e: "bs = (if trim l0 \<noteq> [] then [paragraphBlock st (trim l0)] else []) @ ds" "v = w'"
        unfolding Cons scan_other [OF other] by (auto split: if_splits)
      have "scanLines net st (ls0 @ l # rest) w = (Inr (ds @ cs), w'')"
        using "1.prems"(1) other(3) r e by (intro IH) (simp_all add: Cons)
      then show ?thesis
        unfolding Cons using e by (simp add: scan_other [OF other])
    qed
  qed
qed

lemma scan_open_fence:
  assumes "isFenceLine l" and "\<forall>x\<in>set rest. \<not> isFenceLine x"
  shows "scanLines net st (l # rest) w = (Inr [codeBlock rest], w)"
proof -
  from assms(2) have t: "takeWhile (\<lambda>x. \<not> isFenceLine x) rest = rest"
    and d: "dropWhile (\<lambda>x. \<not> isFenceLine x) rest = []"
    by simp_all
  show ?thesis
    unfolding scan_fence [OF assms(1)] t d
    by (simp add: scanLines.simps(1))
qed

lemma scan_deterministic:
  assumes "\<forall>u w. fst (net1 u w) = r u" and "\<forall>u w. fst (net2 u w) = r u"
  shows "fst (scanLines net1 st ls w1) = fst (scanLines net2 st ls w2)"
proof (induction ls arbitrary: w1 w2 rule: length_induct)
  case (1 ls)
  show ?case
  proof (cases ls)
    case Nil
    then show ?thesis by (simp add: scanLines.simps(1))
  next
    case (Cons l ls')
    have IH: "fst (scanLines net1 st xs v1) = fst (scanLines net2 st xs v2)"
      if "length xs \<le> length ls'" for xs v1 v2
      using 1 that Cons by simp
    show ?thesis
    proof (cases l rule: line_cases)
      case heading
      show ?thesis
        unfolding Cons scan_heading [OF heading] fst_emit
        using IH [of ls' w1 w2] by simp
    next
      case (image alt url)
      obtain r1 where f1: "fetchImageBuffer net1 url w1 = (Inr r1, snd (net1 url w1))"
        using fetchImageBuffer_returns [of net1 url w1] by blast
      obtain r2 where f2: "fetchImageBuffer net2 url w2 = (Inr r2, snd (net2 url w2))"
        using fetchImageBuffer_returns [of net2 url w2] by blast
      have "fst (fetchImageBuffer net1 url w1) = fst (fetchImageBuffer net2 url w2)"
        unfolding fetchImageBuffer_fst using assms by simp
      then have "r1 = r2"
        unfolding f1 f2 by simp
      then show ?thesis
        unfolding Cons scan_image [OF image] f1 f2
        using IH [of ls' "snd (net1 url w1)" "snd (net2 url w2)"]
        by (simp add: fst_emit)
    next
      case fence
      have "length (drop 1 (dropWhile (\<lambda>x. \<not> isFenceLine x) ls')) \<le> length ls'"
        using length_dropWhile_le [of "\<lambda>x. \<not> isFenceLine x" ls'] by simp
      from IH [OF this, of w1 w2] show ?thesis
        unfolding Cons scan_fence [OF fence] fst_emit by simp
    next
      case table
      have "length (dropWhile isTableLine (l # ls')) \<le> length ls'"
        using table length_dropWhile_le [of isTableLine ls'] by simp
      from IH [OF this, of w1 w2] show ?thesis
        unfolding Cons scan_table [OF table] by (simp add: Let_def fst_emit)
    next
      case other
      from IH [of ls' w1 w2] show ?thesis
        unfolding Cons scan_other [OF other] by (simp add: fst_emit)
    qed
  qed
qed

lemma heading_not_image: "startsWith s ''#'' \<Longrightarrow> matchImage s = None"
  by (cases s) (auto simp: matchImage_def)

lemma fetched_in_fence:
  "fetchedReferences True ls =
     fetchedReferences False (drop 1 (dropWhile (\<lambda>x. \<not> isFenceLine x) ls))"
  by (induction ls) auto

lemma fetched_skip_tables:
  "fetchedReferences False (dropWhile isTableLine ls) = fetchedReferences False ls"
proof (induction ls)
  case Nil
  show ?case by simp
next
  case (Cons l ls)
  show ?case
  proof (cases "isTableLine l")
    case True
    then have p: "startsWith (trim l) ''|''"
      by (simp add: isTableLine_def)
    then have "\<not> isFenceLine l"
      using fence_not_pipe [of "trim l"] by (auto simp: isFenceLine_def)
    with True Cons pipe_not_image [OF p] show ?thesis
      by simp
  next
    case False
    then show ?thesis by simp
  qed
qed

lemma snd_emit: "snd (emit b x) = snd x"
  by (cases x) (auto simp: emit_def split: sum.splits)

lemma scan_world:
  "snd (scanLines net st ls w) = foldl (\<lambda>v u. snd (net u v)) w (fetchedReferences False ls)"
proof (induction ls arbitrary: w rule: length_induct)
  case (1 ls)
  show ?case
  proof (cases ls)
    case Nil
    then show ?thesis by (simp add: scanLines.simps(1))
  next
    case (Cons l ls')
    have IH: "snd (scanLines net st xs v) =
        foldl (\<lambda>v u. snd (net u v)) v (fetchedReferences False xs)"
      if "length xs \<le> length ls'" for xs v
      using 1 that Cons by simp
    show ?thesis
    proof (cases l rule: line_cases)
      case heading
      then have "\<not> isFenceLine l" "matchImage (trim l) = None"
        using fence_not_heading [of "trim l"] heading_not_image [of "trim l"]
        by (auto simp: isFenceLine_def)
      with IH [of ls' w] show ?thesis
        unfolding Cons scan_heading [OF heading] snd_emit by simp
    next
      case (image alt url)
      then have nf: "\<not> isFenceLine l"
        using fence_not_image [of "trim l"] by (auto simp: isFenceLine_def)
      obtain r0 where f: "fetchImageBuffer net url w = (Inr r0, snd (net url w))"
        using fetchImageBuffer_returns [of net url w] by blast
      from IH [of ls' "snd (net url w)"] nf image show ?thesis
        unfolding Cons scan_image [OF image] f by (simp add: snd_emit)
    next
      case fence
      let ?xs = "drop 1 (dropWhile (\<lambda>x. \<not> isFenceLine x) ls')"
      have "length ?xs \<le> length ls'"
        using length_dropWhile_le [of "\<lambda>x. \<not> isFenceLine x" ls'] by simp
      from IH [OF this, of w] fence show ?thesis
        unfolding Cons scan_fence [OF fence] snd_emit by (simp add: fetched_in_fence)
    next
      case table
      then have p: "startsWith (trim l) ''|''"
        by (simp add: isTableLine_def)
      then have nf: "\<not> isFenceLine l"
        using fence_not_pipe [of "trim l"] by (auto simp: isFenceLine_def)
      have s: "snd (scanLines net st (l # ls') w) =
          snd (scanLines net st (dropWhile isTableLine ls') w)"
        using table by (simp add: scan_table Let_def snd_emit)
      have "length (dropWhile isTableLine ls') \<le> length ls'"
        by (rule length_dropWhile_le)
      from IH [OF this, of w] nf pipe_not_image [OF p] show ?thesis
        unfolding Cons s by (simp add: fetched_skip_tables)
    next
      case other
      from IH [of ls' w] other show ?thesis
        unfolding Cons scan_other [OF other] by (simp add: snd_emit)
    qed
  qed
qed

lemma foldl_record: "foldl (\<lambda>v u. snd (recording r u v)) tr us = tr @ us"
  by (induction us arbitrary: tr) (simp_all add: recording_def)

lemma scan_replay:
  "fst (scanLines net st ls w) =
     fst (scanLines (replay (done @ sequentialOutcomes net w (fetchedReferences False ls)))
            st ls (length done))"
proof (induction ls arbitrary: w "done" rule: length_induct)
  case (1 ls)
  show ?case
  proof (cases ls)
    case Nil
    then show ?thesis by (simp add: scanLines.simps(1))
  next
    case (Cons l ls')
    have IH: "fst (scanLines net st xs v) =
        fst (scanLines (replay (ds @ sequentialOutcomes net v (fetchedReferences False xs)))
               st xs (length ds))"
      if "length xs \<le> length ls'" for xs v ds
      using 1 that Cons by simp
    show ?thesis
    proof (cases l rule: line_cases)
      case heading
      then have "\<not> isFenceLine l" "matchImage (trim l) = None"
        using fence_not_heading [of "trim l"] heading_not_image [of "trim l"]
        by (auto simp: isFenceLine_def)
      with IH [of ls' w "done"] show ?thesis
        unfolding Cons scan_heading [OF heading] fst_emit by simp
    next
      case (image alt url)
      then have nf: "\<not> isFenceLine l"
        using fence_not_image [of "trim l"] by (auto simp: isFenceLine_def)
      let ?outs = "done @ fst (net url w)
          # sequentialOutcomes net (snd (net url w)) (fetchedReferences False ls')"
      have fr: "fetchedReferences False (l # ls') = url # fetchedReferences False ls'"
        using nf image by simp
      obtain r1 where f1: "fetchImageBuffer net url w = (Inr r1, snd (net url w))"
        using fetchImageBuffer_returns [of net url w] by blast
      obtain r2 where f2: "fetchImageBuffer (replay ?outs) url (length done) =
          (Inr r2, snd (replay ?outs url (length done)))"
        using fetchImageBuffer_returns [of "replay ?outs" url "length done"] by blast
      have "fst (replay ?outs url (length done)) = fst (net url w)"
        by (simp add: replay_def)
      then have "fst (fetchImageBuffer net url w) =
          fst (fetchImageBuffer (replay ?outs) url (length done))"
        unfolding fetchImageBuffer_fst by simp
      then have r: "r1 = r2"
        unfolding f1 f2 by simp
      have o: "done @ sequentialOutcomes net w (fetchedReferences False (l # ls')) = ?outs"
        unfolding fr by simp
      have lhs: "fst (scanLines net st (l # ls') w) =
          (case fst (scanLines net st ls' (snd (net url w))) of
             Inl e \<Rightarrow> Inl e | Inr bs \<Rightarrow> Inr (imageBlock st alt r1 # bs))"
        by (simp add: scan_image [OF image] f1 fst_emit)
      have rhs: "fst (scanLines (replay ?outs) st (l # ls') (length done)) =
          (case fst (scanLines (replay ?outs) st ls' (Suc (length done))) of
             Inl e \<Rightarrow> Inl e | Inr bs \<Rightarrow> Inr (imageBlock st alt r2 # bs))"
        using f2 by (simp add: scan_image [OF image] fst_emit replay_def)
      from IH [of ls' "snd (net url w)" "done @ [fst (net url w)]"]
      have "fst (scanLines net st ls' (snd (net url w))) =
          fst (scanLines (replay ?outs) st ls' (Suc (length done)))"
        by simp
      then show ?thesis
        unfolding Cons o lhs rhs r by simp
    next
      case fence
      let ?xs = "drop 1 (dropWhile (\<lambda>x. \<not> isFenceLine x) ls')"
      have "length ?xs \<le> length ls'"
        using length_dropWhile_le [of "\<lambda>x. \<not> isFenceLine x" ls'] by simp
      from IH [OF this, of w "done"] fence show ?thesis
        unfolding Cons scan_fence [OF fence] fst_emit by (simp add: fetched_in_fence)
    next
      case table
      then have p: "startsWith (trim l) ''|''"
        by (simp add: isTableLine_def)
      then have nf: "\<not> isFenceLine l"
        using fence_not_pipe [of "trim l"] by (auto simp: isFenceLine_def)
      have fr: "fetchedReferences False (l # ls') =
          fetchedReferences False (dropWhile isTableLine ls')"
        using nf pipe_not_image [OF p] by (simp add: fetched_skip_tables)
      have "length (dropWhile isTableLine ls') \<le> length ls'"
        by (rule length_dropWhile_le)
      from IH [OF this, of w "done"] table show ?thesis
        unfolding Cons fr by (simp add: scan_table Let_def fst_emit)
    next
      case other
      from IH [of ls' w "done"] other show ?thesis
        unfolding Cons scan_other [OF other] by (simp add: fst_emit)
    qed
  qed
qed

lemma codeBlock_explicit:
  "codeBlock ls =
     TableBlock
       [[\<lparr>cellChildren = map codeLineParagraph ls, cellShading = Some ''F8FAFC'',
          cellVerticalCenter = False,
          cellBorders = [(1, ''E2E8F0''), (1, ''E2E8F0''), (6, ''3B82F6''), (1, ''E2E8F0'')],
          cellMargins = 200\<rparr>]]"
  by (simp add: codeBlock_def codeLineParagraph_def)

section \<open>Tables\<close>

lemma split_no_sep: "c \<notin> set s \<Longrightarrow> js_split [c] s = [s]"
  by (induction s) auto

lemma split_at_sep: "c \<notin> set f \<Longrightarrow> js_split [c] (f @ c # t) = f # js_split [c] t"
  by (induction f) auto

lemma split_joinPipes:
  "fs \<noteq> [] \<Longrightarrow> \<forall>f\<in>set fs. CHR ''|'' \<notin> set f \<Longrightarrow> js_split ''|'' (joinPipes fs) = fs"
proof (induction fs rule: joinPipes.induct)
  case 1
  then show ?case by simp
next
  case (2 f)
  then show ?case by (simp add: split_no_sep)
next
  case (3 f g fs)
  then show ?case by (simp add: split_at_sep)
qed

lemma joinPipes_Nil: "joinPipes fs = [] \<longleftrightarrow> fs = [] \<or> fs = [[]]"
  by (induction fs rule: joinPipes.induct) auto

lemma last_not_member: "f \<noteq> [] \<Longrightarrow> c \<notin> set f \<Longrightarrow> last f \<noteq> c"
  using last_in_set [of f] by auto

lemma joinPipes_ends_with_pipe:
  assumes "fs \<noteq> []" and "\<forall>f\<in>set fs. CHR ''|'' \<notin> set f"
  shows "(joinPipes fs \<noteq> [] \<and> last (joinPipes fs) = CHR ''|'') \<longleftrightarrow>
      (2 \<le> length fs \<and> last fs = [])"
  using assms
proof (induction fs rule: joinPipes.induct)
  case 1
  then show ?case by simp
next
  case (2 f)
  then show ?case
    using last_not_member [of f "CHR ''|''"] by auto
next
  case (3 f g fs)
  show ?case
  proof (cases "joinPipes (g # fs) = []")
    case True
    then have "fs = []" "g = []"
      by (auto simp: joinPipes_Nil)
    then show ?thesis by simp
  next
    case False
    moreover from 3 have "(joinPipes (g # fs) \<noteq> [] \<and> last (joinPipes (g # fs)) = CHR ''|'') \<longleftrightarrow>
      (2 \<le> length (g # fs) \<and> last (g # fs) = [])"
      by simp
    ultimately show ?thesis
      by (cases fs) (auto simp: joinPipes_Nil)
  qed
qed

lemma joinPipes_butlast:
  "2 \<le> length fs \<Longrightarrow> last fs = [] \<Longrightarrow> butlast (joinPipes fs) = joinPipes (butlast fs)"
proof (induction fs rule: joinPipes.induct)
  case 1
  then show ?case by simp
next
  case (2 f)
  then show ?case by simp
next
  case (3 f g fs)
  show ?case
  proof (cases fs)
    case Nil
    with 3 show ?thesis by simp
  next
    case (Cons h hs)
    with 3 have "butlast (joinPipes (g # fs)) = joinPipes (butlast (g # fs))"
      by simp
    moreover have "joinPipes (g # fs) \<noteq> []"
      using Cons by (simp add: joinPipes_Nil)
    ultimately show ?thesis
      using Cons by (cases hs) (simp_all add: butlast_append)
  qed
qed

lemma rowCells_line:
  assumes "fs \<noteq> []" and "\<forall>f\<in>set fs. CHR ''|'' \<notin> set f"
  shows "rowCells (''|'' @ joinPipes fs) = lineCells fs"
proof (cases "2 \<le> length fs \<and> last fs = []")
  case True
  then have e: "joinPipes fs \<noteq> []" "last (joinPipes fs) = CHR ''|''"
    using joinPipes_ends_with_pipe [OF assms] by simp_all
  have "butlast fs \<noteq> []"
    using True by (cases fs; cases "tl fs") auto
  moreover have "\<forall>f\<in>set (butlast fs). CHR ''|'' \<notin> set f"
    using assms(2) by (meson in_set_butlastD)
  ultimately have b: "butlast fs \<noteq> []" "\<forall>f\<in>set (butlast fs). CHR ''|'' \<notin> set f"
    by simp_all
  have "stripPipes (''|'' @ joinPipes fs) = joinPipes (butlast fs)"
    using e True by (simp add: stripPipes_def joinPipes_butlast)
  then show ?thesis
    using True by (simp add: rowCells_def lineCells_def split_joinPipes [OF b])
next
  case False
  then have "\<not> (joinPipes fs \<noteq> [] \<and> last (joinPipes fs) = CHR ''|'')"
    using joinPipes_ends_with_pipe [OF assms] by simp
  then have "stripPipes (''|'' @ joinPipes fs) = joinPipes fs"
    by (auto simp: stripPipes_def)
  moreover have "lineCells fs = map trim fs"
    using False by (auto simp: lineCells_def)
  ultimately show ?thesis
    by (simp add: rowCells_def split_joinPipes [OF assms])
qed

lemma dash_row_iff: "list_all isDashCell r \<longleftrightarrow> isDashesRow r"
  by (auto simp: list_all_iff isDashCell_def isDashesRow_def)

lemma dashes_are_separator: "isDashesRow r \<Longrightarrow> isSeparatorRow r"
  by (auto simp: isDashesRow_def isSeparatorRow_def isSeparatorCell_def)

lemma tableRows_lines:
  assumes "\<forall>fs\<in>set rows. fs \<noteq> [] \<and> (\<forall>f\<in>set fs. CHR ''|'' \<notin> set f)"
    and "\<forall>fs\<in>set rows. isDashesRow (lineCells fs) \<or> \<not> isSeparatorRow (lineCells fs)"
  shows "tableRows (map (\<lambda>fs. ''|'' @ joinPipes fs) rows) =
     filter (\<lambda>r. \<not> isSeparatorRow r) (map lineCells rows)"
proof -
  have "rowCells (''|'' @ joinPipes fs) = lineCells fs" if "fs \<in> set rows" for fs
    using assms(1) that by (intro rowCells_line) auto
  then have "map rowCells (map (\<lambda>fs. ''|'' @ joinPipes fs) rows) = map lineCells rows"
    unfolding map_map by (intro map_cong) simp_all
  moreover have "filter (\<lambda>r. \<not> list_all isDashCell r) (map lineCells rows) =
      filter (\<lambda>r. \<not> isSeparatorRow r) (map lineCells rows)"
    using assms(2) by (intro filter_cong) (auto simp: dash_row_iff dest: dashes_are_separator)
  ultimately show ?thesis
    unfolding tableRows_def by (simp only:)
qed

lemma tableBlock_explicit:
  "tableBlock st cells =
     TableBlock
       (map (\<lambda>(rowIndex, row). map (renderedCell st (rowIndex = 0)) row)
          (zip [0 ..< length cells] cells))"
proof -
  have "tableCellOf st = renderedCell st"
    by (intro ext) (simp add: tableCellOf_def renderedCell_def)
  then show ?thesis
    by (simp add: tableBlock_def)
qed

text \<open>
  C2, as stated: the cell matrix is rectangular, every shorter row is padded on the right
  with empty cells up to the greatest number of cells. It fails: the rows are the cells
  of their lines and nothing pads them; the lines \<^verbatim>\<open>| a | b |\<close>, \<^verbatim>\<open>|---|---|\<close>, \<^verbatim>\<open>| 1 |\<close>
  give two rows, the second one with its single cell.
\<close>

theorem short_row_not_padded:
  "tableRows [''| a | b |'', ''|---|---|'', ''| 1 |''] = [[''a'', ''b''], [''1'']]"
  by code_simp

text \<open>
  C2, amended: no row is padded. For a run of lines that start with a pipe, in which
  every separator row is a row of dashes, the table has one row for every line that is
  no separator row, in the order of the lines, and every row has exactly the cells of
  its own line; when all lines are separator rows no table is pushed. The table is
  rectangular only when these lines have the same number of cells.
\<close>

theorem table_rows_not_padded:
  assumes "ls \<noteq> []"
    and "map trim ls = map (\<lambda>fs. ''|'' @ joinPipes fs) rows"
    and "\<forall>fs\<in>set rows. fs \<noteq> [] \<and> (\<forall>f\<in>set fs. CHR ''|'' \<notin> set f)"
    and "\<forall>fs\<in>set rows. isDashesRow (lineCells fs) \<or> \<not> isSeparatorRow (lineCells fs)"
  shows "scanLines net st ls w =
     (Inr (if survivingCells rows = [] then []
           else [TableBlock
                   (map (\<lambda>(rowIndex, row). map (renderedCell st (rowIndex = 0)) row)
                      (zip [0 ..< length (survivingCells rows)] (survivingCells rows)))]), w)"
proof -
  from assms(1) obtain l ls' where ls: "ls = l # ls'"
    by (cases ls) auto
  have t: "isTableLine x" if "x \<in> set ls" for x
  proof -
    from that have "trim x \<in> set (map trim ls)"
      by simp
    then obtain fs where "trim x = ''|'' @ joinPipes fs"
      unfolding assms(2) by auto
    then show ?thesis
      by (simp add: isTableLine_def)
  qed
  then have tw: "takeWhile isTableLine (l # ls') = ls" and dw: "dropWhile isTableLine (l # ls') = []"
    unfolding ls by simp_all
  have "tableRows (map trim ls) = survivingCells rows"
    unfolding assms(2) survivingCells_def using assms(3,4) by (rule tableRows_lines)
  then have "scanLines net st (l # ls') w =
      (if survivingCells rows \<noteq> [] then emit (tableBlock st (survivingCells rows)) else id)
        (Inr [], w)"
    using t [of l] unfolding scan_table [OF t [of l, unfolded ls, simplified]] tw dw
    by (simp add: Let_def scanLines.simps(1) ls)
  then show ?thesis
    unfolding ls by (simp add: tableBlock_explicit)
qed

theorem table_rows_not_padded_witness:
  "scanLines (\<lambda>u w. (FetchRejects, w)) standardStyle
     [''| a | b |'', ''|---|---|'', ''| 1 |''] () =
     (Inr [TableBlock
             [[renderedCell standardStyle True ''a'', renderedCell standardStyle True ''b''],
              [renderedCell standardStyle False ''1'']]], ())"
proof -
  let ?rows = "[['' a '', '' b '', ''''], [''---'', ''---'', ''''], ['' 1 '', '''']]"
  have t: "trim '' a '' = ''a''" "trim '' b '' = ''b''" "trim '' 1 '' = ''1''"
    "trim ''---'' = ''---''" "trim ''| a | b |'' = ''| a | b |''"
    "trim ''|---|---|'' = ''|---|---|''" "trim ''| 1 |'' = ''| 1 |''"
    by (simp_all add: trim_def isWhiteSpace_def)
  have c: "map lineCells ?rows = [[''a'', ''b''], [''---'', ''---''], [''1'']]"
    by (simp add: lineCells_def t)
  have s: "survivingCells ?rows = [[''a'', ''b''], [''1'']]"
    unfolding survivingCells_def c
    by (simp add: isSeparatorRow_def isSeparatorCell_def isWhiteSpace_def)
  have h: "\<forall>fs\<in>set ?rows. isDashesRow (lineCells fs) \<or> \<not> isSeparatorRow (lineCells fs)"
    by (simp add: lineCells_def t isDashesRow_def isSeparatorRow_def isSeparatorCell_def
          isWhiteSpace_def)
  from table_rows_not_padded [of "[''| a | b |'', ''|---|---|'', ''| 1 |'']" ?rows
      "\<lambda>u w. (FetchRejects, w)" standardStyle "()", OF _ _ _ h]
  show ?thesis
    by (simp add: t s upt_rec)
qed

lemma colon_separator_rows:
  "tableRows [''| a | b |'', ''|:---:|---|'', ''| 1 | 2 |''] =
     [[''a'', ''b''], ['':---:'', ''---''], [''1'', ''2'']]"
  by code_simp

text \<open>
  C8. A separator row with colons should be discarded like one of dashes only. The code
  discards a row only when every cell is made of dashes: the row \<^verbatim>\<open>|:---:|---|\<close> stays
  in the table as a row of cells.
\<close>

theorem colon_separator_row_kept:
  "scanLines net st [''| a | b |'', ''|:---:|---|'', ''| 1 | 2 |''] w =
     (Inr [tableBlock st [[''a'', ''b''], ['':---:'', ''---''], [''1'', ''2'']]], w)"
  by (simp add: scanLines.simps colon_separator_rows trim_def isWhiteSpace_def
        startsWith_def matchImage_def isTableLine_def emit_def)

section \<open>Images that cannot be acquired\<close>

text \<open>
  C3. When the acquisition of an image fails, \<^verbatim>\<open>fetchImageBuffer\<close> returns \<^verbatim>\<open>null\<close> and
  raises nothing, and the scanner pushes the visible placeholder with the alternative
  text of the line and goes on with the lines that follow: the conversion returns its
  blocks.
\<close>

theorem failed_image_placeholder:
  assumes "matchImage (trim l) = Some (alt, url)"
    and "acquisitionFails url (fst (net url w))"
  shows "fetchImageBuffer net url w = (Inr None, snd (net url w)) \<and>
     (\<exists>bs w'. scanLines net st ls (snd (net url w)) = (Inr bs, w') \<and>
        scanLines net st (l # ls) w = (Inr (downloadFailedBlock alt # bs), w'))"
proof -
  have f: "fetchImageBuffer net url w = (Inr None, snd (net url w))"
    using assms(2) by (rule fetchImageBuffer_fails)
  obtain bs w' where r: "scanLines net st ls (snd (net url w)) = (Inr bs, w')"
    using scan_total [of net st ls "snd (net url w)"] by blast
  have "scanLines net st (l # ls) w = (Inr (downloadFailedBlock alt # bs), w')"
    unfolding scan_image [OF assms(1)] f
    by (simp add: r imageBlock_def downloadFailedBlock_def)
  with f r show ?thesis
    by blast
qed

theorem failed_image_placeholder_witness:
  "fetchImageBuffer (\<lambda>u w. (if u = ''http://x/y.png'' then Response False (Blob BufferRejects) else FetchRejects, Suc w)) ''http://x/y.png'' (0::nat) = (Inr None, 1) \<and>
   scanLines (\<lambda>u w. (if u = ''http://x/y.png'' then Response False (Blob BufferRejects) else FetchRejects, Suc w)) standardStyle [''![logo](http://x/y.png)''] (0::nat) =
     (Inr [downloadFailedBlock ''logo''], 1)"
proof -
  let ?net = "\<lambda>u w. (if u = ''http://x/y.png'' then Response False (Blob BufferRejects) else FetchRejects, Suc w)"
  have m: "matchImage (trim ''![logo](http://x/y.png)'') = Some (''logo'', ''http://x/y.png'')"
    by code_simp
  have a: "acquisitionFails ''http://x/y.png'' (fst (?net ''http://x/y.png'' (0::nat)))"
    by (simp add: acquisitionFails_def)
  from failed_image_placeholder [of "''![logo](http://x/y.png)''" "''logo''" "''http://x/y.png''" ?net 0 standardStyle "[]", OF m a]
  show ?thesis
    by (simp add: scanLines.simps)
qed

section \<open>An input that ends inside a code fence\<close>

text \<open>
  C4. A line that opens a fence is a fence line that follows an even number of fence
  lines. When no fence line follows it, the blocks of the lines before it are followed
  by exactly one code block: the table of one cell that holds one paragraph for every
  line after the fence line, in the order of the lines, with the line as its text.
\<close>

theorem unterminated_fence_flushed:
  assumes "isFenceLine l" and "\<forall>x\<in>set rest. \<not> isFenceLine x"
    and "even (length (filter isFenceLine pre))"
  shows "\<exists>bs w'. scanLines net st pre w = (Inr bs, w') \<and>
     scanLines net st (pre @ l # rest) w =
       (Inr (bs @
          [TableBlock
             [[\<lparr>cellChildren = map codeLineParagraph rest, cellShading = Some ''F8FAFC'',
                cellVerticalCenter = False,
                cellBorders =
                  [(1, ''E2E8F0''), (1, ''E2E8F0''), (6, ''3B82F6''), (1, ''E2E8F0'')],
                cellMargins = 200\<rparr>]]]), w')"
proof -
  obtain bs w' where r: "scanLines net st pre w = (Inr bs, w')"
    using scan_total [of net st pre w] by blast
  have "\<not> isTableLine l"
    using assms(1) fence_not_pipe [of "trim l"] by (auto simp: isTableLine_def isFenceLine_def)
  from scan_append [OF assms(3) this r scan_open_fence [OF assms(1,2)]] r
  show ?thesis
    unfolding codeBlock_explicit by blast
qed

theorem unterminated_fence_flushed_witness:
  "scanLines (\<lambda>u w. (FetchRejects, w)) standardStyle
     [''```'', ''a'', ''```'', '''', ''```js'', ''x = 1'', '' y''] () =
     (Inr [TableBlock
             [[\<lparr>cellChildren = [codeLineParagraph ''a''], cellShading = Some ''F8FAFC'',
                cellVerticalCenter = False,
                cellBorders =
                  [(1, ''E2E8F0''), (1, ''E2E8F0''), (6, ''3B82F6''), (1, ''E2E8F0'')],
                cellMargins = 200\<rparr>]],
           TableBlock
             [[\<lparr>cellChildren = [codeLineParagraph ''x = 1'', codeLineParagraph '' y''],
                cellShading = Some ''F8FAFC'', cellVerticalCenter = False,
                cellBorders =
                  [(1, ''E2E8F0''), (1, ''E2E8F0''), (6, ''3B82F6''), (1, ''E2E8F0'')],
                cellMargins = 200\<rparr>]]], ())"
proof -
  let ?net = "\<lambda>(u::string) (w::unit). (FetchRejects, w)"
  have t: "trim ''```'' = ''```''" "trim ''a'' = ''a''" "trim '''' = ''''"
    "trim ''```js'' = ''```js''" "trim ''x = 1'' = ''x = 1''" "trim '' y'' = ''y''"
    by (simp_all add: trim_def isWhiteSpace_def)
  have f: "isFenceLine ''```js''"
    and r: "\<forall>x\<in>set [''x = 1'', '' y'']. \<not> isFenceLine x"
    and p: "even (length (filter isFenceLine [''```'', ''a'', ''```'', '''']))"
    by (simp_all add: isFenceLine_def t)
  have h: "scanLines ?net standardStyle [''```'', ''a'', ''```'', ''''] () =
      (Inr [codeBlock [''a'']], ())"
    by (simp add: scan_fence scan_other isFenceLine_def isTableLine_def matchImage_def t
          scanLines.simps(1))
  from unterminated_fence_flushed [OF f r p, of ?net standardStyle "()"] h
  show ?thesis by (simp add: codeBlock_explicit)
qed

section \<open>The fetches of a conversion, one after the other\<close>

text \<open>
  C6. The scanner awaits every fetch before it goes on. Whatever the network does to
  the state of the world, the fetches of a conversion are those of the image lines
  outside code fences, one for each, in the order of the document, and each one is made
  in the state that the one before it has left: none is started before the one before it
  has ended. A network that records its fetches therefore records exactly these
  references, in this order, and the document depends on the network only through the
  outcomes of these fetches, made one after the other. And when every reference is
  resolved by a fixed result, whatever the state of the world at the time of its fetch,
  two runs on the same markup and style give the same document.
\<close>

theorem conversion_sequential:
  assumes "\<forall>u w. fst (net1 u w) = r u" and "\<forall>u w. fst (net2 u w) = r u"
  shows "fst (downloadDocx net1 markdown template customStyle w1) =
       fst (downloadDocx net2 markdown template customStyle w2) \<and>
     snd (downloadDocx net markdown template customStyle w) =
       foldl (\<lambda>v u. snd (net u v)) w (fetchedReferences False (js_split [CHR 0x0A] markdown)) \<and>
     snd (downloadDocx (recording r) markdown template customStyle []) =
       fetchedReferences False (js_split [CHR 0x0A] markdown) \<and>
     fst (downloadDocx net markdown template customStyle w) =
       fst (downloadDocx
              (replay (sequentialOutcomes net w
                 (fetchedReferences False (js_split [CHR 0x0A] markdown))))
              markdown template customStyle 0)"
  unfolding downloadDocx_def
  using scan_deterministic [OF assms] scan_replay [of net _ _ w "[]"]
  by (simp add: scan_world foldl_record)

theorem conversion_sequential_witness:
  "fst (downloadDocx (\<lambda>u w. (FetchRejects, Suc w))
         (''![a](u1)'' @ [CHR 0x0A] @ ''```'' @ [CHR 0x0A] @ ''![b](u2)'' @ [CHR 0x0A] @ ''```''
            @ [CHR 0x0A] @ ''![c](u3)'') STANDARD None (0::nat)) =
   fst (downloadDocx (\<lambda>u w. (FetchRejects, w + 2))
         (''![a](u1)'' @ [CHR 0x0A] @ ''```'' @ [CHR 0x0A] @ ''![b](u2)'' @ [CHR 0x0A] @ ''```''
            @ [CHR 0x0A] @ ''![c](u3)'') STANDARD None (5::nat)) \<and>
   snd (downloadDocx (\<lambda>u w. (FetchRejects, u # w))
         (''![a](u1)'' @ [CHR 0x0A] @ ''```'' @ [CHR 0x0A] @ ''![b](u2)'' @ [CHR 0x0A] @ ''```''
            @ [CHR 0x0A] @ ''![c](u3)'') STANDARD None []) = [''u3'', ''u1''] \<and>
   snd (downloadDocx (recording (\<lambda>u. FetchRejects))
         (''![a](u1)'' @ [CHR 0x0A] @ ''```'' @ [CHR 0x0A] @ ''![b](u2)'' @ [CHR 0x0A] @ ''```''
            @ [CHR 0x0A] @ ''![c](u3)'') STANDARD None []) = [''u1'', ''u3'']"
proof -
  let ?md = "''![a](u1)'' @ [CHR 0x0A] @ ''```'' @ [CHR 0x0A] @ ''![b](u2)'' @ [CHR 0x0A]
      @ ''```'' @ [CHR 0x0A] @ ''![c](u3)''"
  have f: "fetchedReferences False (js_split [CHR 0x0A] ?md) = [''u1'', ''u3'']"
    by code_simp
  from conversion_sequential [of "\<lambda>u w. (FetchRejects, Suc w)" "\<lambda>u. FetchRejects"
      "\<lambda>u w. (FetchRejects, w + 2)" ?md STANDARD None "0::nat" "5::nat"
      "\<lambda>u w. (FetchRejects, u # w)" "[]"]
  show ?thesis
    unfolding f by simp
qed

section \<open>The text after an image reference\<close>

text \<open>
  C10. Of a line that begins with an image reference only the alternative text and the
  reference are used: the document is the one of the line cut after the closing
  parenthesis of the reference.
\<close>

theorem image_line_tail_dropped:
  assumes "matchImage (trim l) = Some (alt, url)"
  shows "scanLines net st (l # ls) w =
     scanLines net st ((''!['' @ alt @ ''](''  @ url @ '')'') # ls) w"
proof -
  let ?c = "''!['' @ alt @ ''](''  @ url @ '')''"
  have "trim ?c = ?c"
    by (rule trim_id) (simp_all add: isWhiteSpace_def)
  moreover have "matchImage ?c = Some (alt, url)"
    using matchImage_canonical [OF assms, of "[]"] by simp
  ultimately have "matchImage (trim ?c) = Some (alt, url)"
    by simp
  then show ?thesis
    by (simp only: scan_image [OF assms] scan_image)
qed

theorem image_line_tail_dropped_witness:
  "scanLines (\<lambda>u w. (FetchRejects, Suc w)) standardStyle [''![logo](pic.png) and more text''] (0::nat) =
   scanLines (\<lambda>u w. (FetchRejects, Suc w)) standardStyle [''![logo](pic.png)''] 0"
proof -
  have "matchImage (trim ''![logo](pic.png) and more text'') = Some (''logo'', ''pic.png'')"
    by code_simp
  from image_line_tail_dropped [OF this] show ?thesis
    by simp
qed

section \<open>The display size of an image\<close>

text \<open>Rounding to a double moves a number by at most the fraction \<open>1 / 2 ^ 53\<close> of it.\<close>

lemma bitLength_pos: "0 < n \<Longrightarrow> 0 < bitLength n"
  by (subst bitLength.simps) simp

lemma bitLength_bounds:
  "0 < n \<Longrightarrow> 2 ^ (bitLength n - 1) \<le> n \<and> n < 2 ^ bitLength n"
proof (induction n rule: bitLength.induct)
  case (1 n)
  show ?case
  proof (cases "n = 1")
    case True
    have "bitLength 1 = 1"
      by (simp add: bitLength.simps)
    with True show ?thesis by simp
  next
    case False
    with "1.prems" have h: "0 < n div 2"
      by simp
    let ?b = "bitLength (n div 2)"
    from "1.IH" h "1.prems" have ih: "2 ^ (?b - 1) \<le> n div 2" "n div 2 < 2 ^ ?b"
      by simp_all
    have b: "bitLength n = Suc ?b"
      using "1.prems" by (subst bitLength.simps) simp
    have pos: "0 < ?b"
      using h by (rule bitLength_pos)
    then have p: "(2::int) ^ ?b = 2 * 2 ^ (?b - 1)"
      by (cases ?b) simp_all
    have "2 ^ ?b \<le> n"
      using ih(1) p by linarith
    moreover have "n < 2 * 2 ^ ?b"
      using ih(2) by linarith
    ultimately show ?thesis
      by (simp add: b)
  qed
qed

lemma binade_bounds:
  assumes "0 < x"
  shows "2 powi (binade x) \<le> x \<and> x < 2 powi (binade x + 1)"
proof -
  obtain p q where pq: "quotient_of x = (p, q)"
    by (cases "quotient_of x")
  then have q: "0 < q" and x: "x = of_int p / of_int q"
    by (auto dest: quotient_of_denom_pos quotient_of_div)
  with assms have p: "0 < p"
    by (simp add: zero_less_divide_iff)
  let ?a = "bitLength p" and ?b = "bitLength q"
  let ?d = "int ?a - int ?b"
  from bitLength_bounds [OF p] have pa: "2 ^ (?a - 1) \<le> p" "p < 2 ^ ?a"
    by simp_all
  from bitLength_bounds [OF q] have qb: "2 ^ (?b - 1) \<le> q" "q < 2 ^ ?b"
    by simp_all
  have apos: "0 < ?a" and bpos: "0 < ?b"
    using p q by (simp_all add: bitLength_pos)
  have qr: "(0::rat) < of_int q"
    using q by simp
  have up: "x < 2 powi (?d + 1)"
  proof -
    have "(of_int p :: rat) < 2 ^ ?a"
      using pa(2) by (metis of_int_less_iff of_int_numeral of_int_power)
    moreover have "(2::rat) ^ (?b - 1) \<le> of_int q"
      using qb(1) by (metis of_int_le_iff of_int_numeral of_int_power)
    ultimately have "of_int p * (2::rat) ^ (?b - 1) < 2 ^ ?a * of_int q"
      using qr p by (intro mult_less_le_imp_less) simp_all
    then have "x < 2 ^ ?a / 2 ^ (?b - 1)"
      unfolding x using qr by (simp add: field_simps)
    also have "\<dots> = 2 powi (int ?a - int (?b - 1))"
      by (simp add: power_int_diff)
    also have "int ?a - int (?b - 1) = ?d + 1"
      using bpos by simp
    finally show ?thesis .
  qed
  have low: "2 powi (?d - 1) < x"
  proof -
    have "(2::rat) ^ (?a - 1) \<le> of_int p"
      using pa(1) by (metis of_int_le_iff of_int_numeral of_int_power)
    moreover have "(of_int q :: rat) < 2 ^ ?b"
      using qb(2) by (metis of_int_less_iff of_int_numeral of_int_power)
    ultimately have "(2::rat) ^ (?a - 1) * of_int q < of_int p * 2 ^ ?b"
      using qr p by (intro mult_le_less_imp_less) simp_all
    then have l: "2 ^ (?a - 1) / 2 ^ ?b < x"
      unfolding x using qr by (simp add: field_simps)
    have "(2::rat) ^ (?a - 1) / 2 ^ ?b = 2 powi (int (?a - 1) - int ?b)"
      by (simp add: power_int_diff)
    also have "int (?a - 1) - int ?b = ?d - 1"
      using apos by linarith
    finally show ?thesis
      using l by simp
  qed
  show ?thesis
  proof (cases "2 powi ?d \<le> x")
    case True
    then have "binade x = ?d"
      by (simp add: binade_def pq)
    with True up show ?thesis by simp
  next
    case False
    then have "binade x = ?d - 1"
      by (simp add: binade_def pq)
    with False low show ?thesis by simp
  qed
qed

lemma roundHalfEven_near: "\<bar>of_int (roundHalfEven y) - y\<bar> \<le> 1 / 2"
proof -
  have "of_int \<lfloor>y\<rfloor> \<le> y" "y < of_int \<lfloor>y\<rfloor> + 1"
    by linarith+
  then show ?thesis
    unfolding roundHalfEven_def Let_def by (auto simp: abs_le_iff)
qed

lemma roundDouble_near: "\<bar>roundDouble x - x\<bar> \<le> \<bar>x\<bar> / 2 ^ 53"
proof (cases "x = 0")
  case True
  then show ?thesis by (simp add: roundDouble_def)
next
  case False
  let ?e = "binade \<bar>x\<bar>"
  let ?u = "(2::rat) powi (?e - 52)"
  let ?m = "roundHalfEven (\<bar>x\<bar> / ?u)"
  have u: "0 < ?u"
    by (simp add: zero_less_power_int)
  from False have ax: "0 < \<bar>x\<bar>" by simp
  from binade_bounds [OF ax] have e: "2 powi ?e \<le> \<bar>x\<bar>" by simp
  have rd: "roundDouble x = sgn x * of_int ?m * ?u"
    using False by (simp add: roundDouble_def Let_def)
  have "x = sgn x * \<bar>x\<bar>"
    by (simp add: sgn_mult_abs)
  then have "roundDouble x - x = sgn x * (of_int ?m * ?u - \<bar>x\<bar>)"
    unfolding rd by (simp add: algebra_simps)
  then have "\<bar>roundDouble x - x\<bar> = \<bar>of_int ?m * ?u - \<bar>x\<bar>\<bar>"
    using False by (simp add: abs_mult abs_sgn_eq)
  also have "of_int ?m * ?u - \<bar>x\<bar> = (of_int ?m - \<bar>x\<bar> / ?u) * ?u"
    using u by (simp add: field_simps)
  also have "\<bar>\<dots>\<bar> = \<bar>of_int ?m - \<bar>x\<bar> / ?u\<bar> * ?u"
    using u by (simp add: abs_mult)
  also have "\<dots> \<le> (1 / 2) * ?u"
    using roundHalfEven_near [of "\<bar>x\<bar> / ?u"] u by (intro mult_right_mono) simp_all
  also have "(1 / 2) * ?u = 2 powi ?e / 2 ^ 53"
  proof -
    have "?u = 2 powi ?e / 2 powi 52"
      by (simp add: power_int_diff)
    then show ?thesis by simp
  qed
  also have "\<dots> \<le> \<bar>x\<bar> / 2 ^ 53"
    using e by (simp add: divide_right_mono)
  finally show ?thesis .
qed

lemma scaled_height_near:
  fixes h w :: rat
  assumes "0 \<le> h" and "600 < w"
  shows "\<bar>of_int (round (fmul h (fdiv 600 w))) - h * 600 / w\<bar> \<le> 1 / 2 + 3 * h / 2 ^ 53"
proof -
  let ?r = "600 / w"
  let ?ratio = "fdiv 600 w"
  let ?P = "h * ?ratio"
  let ?y = "fmul h ?ratio"
  let ?eps = "1 / (2::rat) ^ 53"
  have r: "0 < ?r" "?r < 1"
    using assms(2) by simp_all
  have e1: "\<bar>?ratio - ?r\<bar> \<le> ?r * ?eps"
    using roundDouble_near [of ?r] r(1) by (simp add: fdiv_def)
  have "\<bar>?ratio\<bar> \<le> \<bar>?ratio - ?r\<bar> + \<bar>?r\<bar>"
    using abs_triangle_ineq [of "?ratio - ?r" ?r] by simp
  with e1 r(1) have "\<bar>?ratio\<bar> \<le> ?r * ?eps + ?r"
    by simp
  also have "\<dots> \<le> 2 * ?r"
    using r(1) by (simp add: field_simps)
  finally have ra: "\<bar>?ratio\<bar> \<le> 2 * ?r" .
  have "\<bar>?P\<bar> = h * \<bar>?ratio\<bar>"
    using assms(1) by (simp add: abs_mult)
  also have "\<dots> \<le> h * (2 * ?r)"
    using ra assms(1) by (rule mult_left_mono)
  finally have Pa: "\<bar>?P\<bar> \<le> 2 * h * ?r"
    by (simp add: mult_ac)
  have "\<bar>?y - ?P\<bar> \<le> \<bar>?P\<bar> * ?eps"
    using roundDouble_near [of ?P] by (simp add: fmul_def)
  also have "\<dots> \<le> (2 * h * ?r) * ?eps"
    using Pa by (intro mult_right_mono) simp_all
  finally have e2: "\<bar>?y - ?P\<bar> \<le> 2 * h * ?r * ?eps" .
  have "?P - h * ?r = h * (?ratio - ?r)"
    by (simp add: right_diff_distrib)
  then have "\<bar>?P - h * ?r\<bar> = h * \<bar>?ratio - ?r\<bar>"
    using assms(1) by (simp only: abs_mult abs_of_nonneg)
  also have "\<dots> \<le> h * (?r * ?eps)"
    using e1 assms(1) by (rule mult_left_mono)
  finally have e3: "\<bar>?P - h * ?r\<bar> \<le> h * ?r * ?eps"
    by (simp add: mult_ac)
  have "h * ?r \<le> h * 1"
    using r(2) assms(1) by (intro mult_left_mono) simp_all
  then have hr: "3 * (h * ?r) * ?eps \<le> 3 * h * ?eps"
    by (intro mult_right_mono) simp_all
  have "\<bar>?y - h * ?r\<bar> \<le> \<bar>?y - ?P\<bar> + \<bar>?P - h * ?r\<bar>"
    using abs_triangle_ineq [of "?y - ?P" "?P - h * ?r"] by simp
  also have "\<dots> \<le> 3 * (h * ?r) * ?eps"
    using e2 e3 by (simp add: algebra_simps)
  also note hr
  finally have e4: "\<bar>?y - h * ?r\<bar> \<le> 3 * h * ?eps" .
  have "\<bar>of_int (round ?y) - h * ?r\<bar> \<le> \<bar>of_int (round ?y) - ?y\<bar> + \<bar>?y - h * ?r\<bar>"
    using abs_triangle_ineq [of "of_int (round ?y) - ?y" "?y - h * ?r"] by simp
  also have "\<dots> \<le> 1 / 2 + 3 * h * ?eps"
    using of_int_round_abs_le [of ?y] e4 by (intro add_mono) simp_all
  finally show ?thesis
    by (simp add: field_simps)
qed

lemma scaleImage_bounds:
  "(600 < width \<longrightarrow>
      fst (scaleImage width height) = 600 \<and>
      \<bar>of_int (snd (scaleImage width height)) - of_nat height * 600 / (of_nat width :: rat)\<bar>
        \<le> 1 / 2 + 3 * of_nat height / 2 ^ 53) \<and>
   (width \<le> 600 \<longrightarrow> scaleImage width height = (int width, int height))"
proof (intro conjI impI)
  assume w: "600 < width"
  then show "fst (scaleImage width height) = 600"
    by (simp add: scaleImage_def MAX_WIDTH_def Let_def)
  have "(600::rat) < of_nat width"
    using w by (metis of_nat_less_iff of_nat_numeral)
  from scaled_height_near [OF _ this, of "of_nat height"] w
  show "\<bar>of_int (snd (scaleImage width height)) - of_nat height * 600 / (of_nat width :: rat)\<bar>
        \<le> 1 / 2 + 3 * of_nat height / 2 ^ 53"
    by (simp add: scaleImage_def MAX_WIDTH_def Let_def)
next
  assume "width \<le> 600"
  then show "scaleImage width height = (int width, int height)"
    by (simp add: scaleImage_def MAX_WIDTH_def)
qed

lemma fetchImageBuffer_succeeds:
  assumes "fst (net url w) = Response ok (Blob (Buffer buffer p))"
    and "ok \<or> startsWith url ''data:image''"
    and "(wd, ht) = (case p of Loaded a b \<Rightarrow> (a, b) | LoadError \<Rightarrow> (600, 400))"
  shows "fetchImageBuffer net url w =
     (Inr (Some \<lparr>imageBytes = buffer, imageWidth = wd, imageHeight = ht\<rparr>), snd (net url w))"
  using assms
  by (cases p)
     (auto simp: fetchImageBuffer_def fetchImageTry_def readImage_def probeDimensions_def
        split_def Let_def simp del: startsWith_Cons)

text \<open>
  C5. An image is resolved when the response can be read; its natural size is the one
  that the image element reports, or 600 by 400 when the element fails. The scanner
  then pushes a paragraph with the image run and its caption. For a natural width above
  600 the display width of the run is 600 and its display height is the natural height
  scaled by 600 over the natural width, up to the rounding to an integer: it differs
  from the exact quotient by at most one half and the error of the two roundings to a
  double, which is below \<open>2 ^ - 19\<close> for every height that an image element can report.
  For a natural width of at most 600 the run has the natural size.
\<close>

theorem image_scaled_to_max_width:
  assumes "matchImage (trim l) = Some (alt, url)"
    and "fst (net url w) = Response ok (Blob (Buffer buffer p))"
    and "ok \<or> startsWith url ''data:image''"
    and "(wd, ht) = (case p of Loaded a b \<Rightarrow> (a, b) | LoadError \<Rightarrow> (600, 400))"
  shows "\<exists>finalWidth finalHeight bs w'.
     scanLines net st ls (snd (net url w)) = (Inr bs, w') \<and>
     scanLines net st (l # ls) w =
       (Inr (ParagraphBlock
               \<lparr>pChildren = [ImageRun buffer finalWidth finalHeight alt, captionRun st alt],
                pHeading = None, pAlignment = Some CENTER,
                pSpacing = Some \<lparr>spLine = None, spBefore = Some 200, spAfter = Some 200\<rparr>\<rparr>
             # bs), w') \<and>
     (600 < wd \<longrightarrow>
        finalWidth = 600 \<and>
        \<bar>of_int finalHeight - of_nat ht * 600 / (of_nat wd :: rat)\<bar>
          \<le> 1 / 2 + 3 * of_nat ht / 2 ^ 53) \<and>
     (wd \<le> 600 \<longrightarrow> finalWidth = int wd \<and> finalHeight = int ht)"
proof -
  let ?img = "\<lparr>imageBytes = buffer, imageWidth = wd, imageHeight = ht\<rparr>"
  have f: "fetchImageBuffer net url w = (Inr (Some ?img), snd (net url w))"
    using assms(2-4) by (rule fetchImageBuffer_succeeds)
  obtain bs w' where r: "scanLines net st ls (snd (net url w)) = (Inr bs, w')"
    using scan_total [of net st ls "snd (net url w)"] by blast
  obtain fw fh where s: "scaleImage wd ht = (fw, fh)"
    by (cases "scaleImage wd ht")
  have "scanLines net st (l # ls) w =
       (Inr (ParagraphBlock
               \<lparr>pChildren = [ImageRun buffer fw fh alt, captionRun st alt],
                pHeading = None, pAlignment = Some CENTER,
                pSpacing = Some \<lparr>spLine = None, spBefore = Some 200, spAfter = Some 200\<rparr>\<rparr>
             # bs), w')"
    unfolding scan_image [OF assms(1)] f
    by (simp add: r imageBlock_def s captionRun_def)
  moreover from scaleImage_bounds [of wd ht]
  have "(600 < wd \<longrightarrow>
        fw = 600 \<and>
        \<bar>of_int fh - of_nat ht * 600 / (of_nat wd :: rat)\<bar> \<le> 1 / 2 + 3 * of_nat ht / 2 ^ 53) \<and>
     (wd \<le> 600 \<longrightarrow> fw = int wd \<and> fh = int ht)"
    by (simp add: s)
  ultimately show ?thesis
    using r by blast
qed

theorem image_scaled_to_max_width_witness:
  "scanLines (\<lambda>u w. (Response True (Blob (Buffer [1, 2] (Loaded 1200 800))), Suc w))
     standardStyle [''![logo](pic.png)''] (0::nat) =
     (Inr [ParagraphBlock
             \<lparr>pChildren = [ImageRun [1, 2] 600 400 ''logo'', captionRun standardStyle ''logo''],
              pHeading = None, pAlignment = Some CENTER,
              pSpacing = Some \<lparr>spLine = None, spBefore = Some 200, spAfter = Some 200\<rparr>\<rparr>], 1) \<and>
   scanLines (\<lambda>u w. (Response True (Blob (Buffer [3] (Loaded 300 200))), Suc w))
     standardStyle [''![logo](pic.png)''] (0::nat) =
     (Inr [ParagraphBlock
             \<lparr>pChildren = [ImageRun [3] 300 200 ''logo'', captionRun standardStyle ''logo''],
              pHeading = None, pAlignment = Some CENTER,
              pSpacing = Some \<lparr>spLine = None, spBefore = Some 200, spAfter = Some 200\<rparr>\<rparr>], 1)"
proof -
  let ?net = "\<lambda>(u::string) (w::nat).
    (Response True (Blob (Buffer [1, 2] (Loaded 1200 800))), Suc w)"
  let ?small = "\<lambda>(u::string) (w::nat). (Response True (Blob (Buffer [3] (Loaded 300 200))), Suc w)"
  have m: "matchImage (trim ''![logo](pic.png)'') = Some (''logo'', ''pic.png'')"
    by code_simp
  from image_scaled_to_max_width
    [OF m, of ?net 0 True "[1, 2]" "Loaded 1200 800" 1200 800 standardStyle "[]"]
  obtain fw fh where
    s: "scanLines ?net standardStyle [''![logo](pic.png)''] 0 =
       (Inr [ParagraphBlock
               \<lparr>pChildren = [ImageRun [1, 2] fw fh ''logo'', captionRun standardStyle ''logo''],
                pHeading = None, pAlignment = Some CENTER,
                pSpacing = Some \<lparr>spLine = None, spBefore = Some 200, spAfter = Some 200\<rparr>\<rparr>], 1)"
    and fw: "fw = 600"
    and fh: "\<bar>of_int fh - (400::rat)\<bar> \<le> 1 / 2 + 2400 / 2 ^ 53"
    by (auto simp: scanLines.simps(1))
  from fh have "\<bar>of_int fh - (of_int 400 :: rat)\<bar> < 1"
    by simp
  then have "\<bar>fh - 400\<bar> < 1"
    by (metis of_int_diff of_int_abs of_int_less_1_iff)
  then have "fh = 400"
    by simp
  with s fw have big: "scanLines ?net standardStyle [''![logo](pic.png)''] 0 =
       (Inr [ParagraphBlock
               \<lparr>pChildren = [ImageRun [1, 2] 600 400 ''logo'', captionRun standardStyle ''logo''],
                pHeading = None, pAlignment = Some CENTER,
                pSpacing = Some \<lparr>spLine = None, spBefore = Some 200, spAfter = Some 200\<rparr>\<rparr>], 1)"
    by simp
  from image_scaled_to_max_width
    [OF m, of ?small 0 True "[3]" "Loaded 300 200" 300 200 standardStyle "[]"]
  have "scanLines ?small standardStyle [''![logo](pic.png)''] 0 =
       (Inr [ParagraphBlock
               \<lparr>pChildren = [ImageRun [3] 300 200 ''logo'', captionRun standardStyle ''logo''],
                pHeading = None, pAlignment = Some CENTER,
                pSpacing = Some \<lparr>spLine = None, spBefore = Some 200, spAfter = Some 200\<rparr>\<rparr>], 1)"
    by (auto simp: scanLines.simps(1))
  with big show ?thesis
    by simp
qed

end
